theory Spec2Isabelle
  imports Main "HOL-Library.Char_ord" "HOL-Library.List_Lexorder" "HOL-Library.Sublist"
begin

section \<open>Go library functions called by \<open>lib/workflows.go\<close>\<close>

text \<open>
  The six methods of \<open>WorkflowService\<close> build their request URL with \<open>net/url\<close>
  (\<open>URL.JoinPath\<close>, \<open>URL.Query\<close>, \<open>Values.Set\<close>, \<open>Values.Encode\<close>, \<open>URL.String\<close>),
  \<open>path\<close> (\<open>Join\<close>, \<open>Clean\<close>) and \<open>strconv.Itoa\<close>. A Go \<open>string\<close> is a byte sequence,
  here a \<open>char list\<close>; the definitions follow the library functions of Go 1.20 and later
  branch by branch. Library functions that return \<open>(value, error)\<close> return an
  \<open>option\<close> here: every caller in this program only tests the error against \<open>nil\<close> or drops it.
\<close>

subsection \<open>\<open>strconv.Itoa\<close>\<close>

definition digit_char :: "nat \<Rightarrow> char" where
  "digit_char d = ''0123456789'' ! d"

function digits :: "nat \<Rightarrow> string" where
  "digits n = (if n < 10 then [digit_char n] else digits (n div 10) @ [digit_char (n mod 10)])"
  by pat_completeness auto
termination
  by (relation "measure (\<lambda>n. n)") auto

text \<open>\<open>Itoa\<close> on the value of a Go \<open>int\<close>: its decimal digits, after a minus sign when negative.\<close>

definition Itoa :: "int \<Rightarrow> string" where
  "Itoa i = (if i < 0 then CHR ''-'' # digits (nat (- i)) else digits (nat i))"

text \<open>Reading a decimal numeral back, to state that \<open>Itoa\<close> writes base ten.\<close>

definition digit_val :: "char \<Rightarrow> nat" where
  "digit_val c = of_char c - of_char CHR ''0''"


text \<open>The byte comparison \<open>lo <= c && c <= hi\<close>.\<close>

definition in_range :: "char \<Rightarrow> char \<Rightarrow> char \<Rightarrow> bool" where
  "in_range lo hi c = (lo \<le> c \<and> c \<le> hi)"

definition is_digit :: "char \<Rightarrow> bool" where
  "is_digit c = in_range CHR ''0'' CHR ''9'' c"

subsection \<open>\<open>net/url\<close>: escaping\<close>

datatype encoding =
    encodePath | encodePathSegment | encodeHost | encodeZone
  | encodeUserPassword | encodeQueryComponent | encodeFragment

definition is_alnum :: "char \<Rightarrow> bool" where
  "is_alnum c = (in_range CHR ''a'' CHR ''z'' c \<or> in_range CHR ''A'' CHR ''Z'' c
                 \<or> in_range CHR ''0'' CHR ''9'' c)"

definition shouldEscape :: "char \<Rightarrow> encoding \<Rightarrow> bool" where
  "shouldEscape c mode =
     (if is_alnum c then False
      else if (mode = encodeHost \<or> mode = encodeZone)
              \<and> c \<in> set (''!$&()*+,;=:[]<>'' @ [CHR 0x27, CHR 0x22]) then False
      else if c \<in> set ''-_.~'' then False
      else if c \<in> set ''$&+,/:;=?@'' then
        (case mode of
           encodePath \<Rightarrow> c = CHR ''?''
         | encodePathSegment \<Rightarrow> c \<in> set ''/;,?''
         | encodeUserPassword \<Rightarrow> c \<in> set ''@/?:''
         | encodeQueryComponent \<Rightarrow> True
         | encodeFragment \<Rightarrow> False
         | _ \<Rightarrow> True)
      else if mode = encodeFragment \<and> c \<in> set ''!()*'' then False
      else True)"

definition upperhex :: string where
  "upperhex = ''0123456789ABCDEF''"

definition escape_byte :: "encoding \<Rightarrow> char \<Rightarrow> string" where
  "escape_byte mode c =
     (if c = CHR '' '' \<and> mode = encodeQueryComponent then ''+''
      else if shouldEscape c mode
        then [CHR ''%'', upperhex ! (of_char c div 16), upperhex ! (of_char c mod 16)]
      else [c])"

definition escape :: "string \<Rightarrow> encoding \<Rightarrow> string" where
  "escape s mode = concat (map (escape_byte mode) s)"

definition ishex :: "char \<Rightarrow> bool" where
  "ishex c = (in_range CHR ''0'' CHR ''9'' c \<or> in_range CHR ''a'' CHR ''f'' c
              \<or> in_range CHR ''A'' CHR ''F'' c)"

definition unhex :: "char \<Rightarrow> nat" where
  "unhex c =
     (if in_range CHR ''0'' CHR ''9'' c then of_char c - of_char CHR ''0''
      else if in_range CHR ''a'' CHR ''f'' c then of_char c - of_char CHR ''a'' + 10
      else if in_range CHR ''A'' CHR ''F'' c then of_char c - of_char CHR ''A'' + 10
      else 0)"

text \<open>
  \<open>unescape\<close> first checks the whole string and then decodes it; a malformed escape
  anywhere makes it return an error, here \<open>None\<close>.
\<close>

fun unescape :: "string \<Rightarrow> encoding \<Rightarrow> string option" where
  "unescape [] mode = Some []"
| "unescape (c # s) mode =
     (if c = CHR ''%'' then
        (case s of
           a # b # r \<Rightarrow>
             if \<not> ishex a \<or> \<not> ishex b then None
             else if mode = encodeHost \<and> unhex a < 8 \<and> [a, b] \<noteq> ''25'' then None
             else if mode = encodeZone \<and> [a, b] \<noteq> ''25''
                     \<and> char_of (unhex a * 16 + unhex b) \<noteq> CHR '' ''
                     \<and> shouldEscape (char_of (unhex a * 16 + unhex b)) encodeHost then None
             else map_option ((#) (char_of (unhex a * 16 + unhex b))) (unescape r mode)
         | _ \<Rightarrow> None)
      else if c = CHR ''+'' then
        map_option ((#) (if mode = encodeQueryComponent then CHR '' '' else CHR ''+''))
          (unescape s mode)
      else if (mode = encodeHost \<or> mode = encodeZone) \<and> (of_char c :: nat) < 128
              \<and> shouldEscape c encodeHost then None
      else map_option ((#) c) (unescape s mode))"

definition valid_byte :: "encoding \<Rightarrow> char \<Rightarrow> bool" where
  "valid_byte mode c =
     (if c \<in> set (''!$&()*+,;=:@'' @ [CHR 0x27]) then True
      else if c \<in> set ''[]'' then True
      else if c = CHR ''%'' then True
      else \<not> shouldEscape c mode)"

definition validEncoded :: "string \<Rightarrow> encoding \<Rightarrow> bool" where
  "validEncoded s mode = list_all (valid_byte mode) s"

definition QueryEscape :: "string \<Rightarrow> string" where
  "QueryEscape s = escape s encodeQueryComponent"

definition QueryUnescape :: "string \<Rightarrow> string option" where
  "QueryUnescape s = unescape s encodeQueryComponent"

definition PathEscape :: "string \<Rightarrow> string" where
  "PathEscape s = escape s encodePathSegment"

subsection \<open>\<open>path.Clean\<close> and \<open>path.Join\<close>\<close>

text \<open>
  \<open>Clean\<close> writes into a buffer \<open>out\<close> whose length is the write index \<open>out.w\<close> of the
  source. On a \<open>..\<close> element the source steps \<open>out.w\<close> back to the previous slash, never
  below \<open>dotdot\<close>.
\<close>

fun backtrack :: "string \<Rightarrow> nat \<Rightarrow> nat \<Rightarrow> nat" where
  "backtrack out dotdot w =
     (if dotdot < w \<and> out ! w \<noteq> CHR ''/'' then backtrack out dotdot (w - 1) else w)"

declare backtrack.simps [simp del]

definition not_slash :: "char \<Rightarrow> bool" where
  "not_slash c = (c \<noteq> CHR ''/'')"

function clean_loop :: "bool \<Rightarrow> string \<Rightarrow> string \<Rightarrow> nat \<Rightarrow> string" where
  "clean_loop rooted [] out dotdot = out"
| "clean_loop rooted (c # cs) out dotdot =
     (if c = CHR ''/'' then clean_loop rooted cs out dotdot
      else if c = CHR ''.'' \<and> (cs = [] \<or> hd cs = CHR ''/'') then clean_loop rooted cs out dotdot
      else if c = CHR ''.'' \<and> hd cs = CHR ''.'' \<and> (tl cs = [] \<or> hd (tl cs) = CHR ''/'') then
        (if dotdot < length out
           then clean_loop rooted (tl cs) (take (backtrack out dotdot (length out - 1)) out) dotdot
         else if \<not> rooted
           then clean_loop rooted (tl cs) ((if out \<noteq> [] then out @ ''/'' else out) @ ''..'')
                  (length ((if out \<noteq> [] then out @ ''/'' else out) @ ''..''))
         else clean_loop rooted (tl cs) out dotdot)
      else clean_loop rooted (dropWhile not_slash (c # cs))
             ((if rooted \<and> length out \<noteq> 1 \<or> \<not> rooted \<and> length out \<noteq> 0 then out @ ''/'' else out)
                @ takeWhile not_slash (c # cs))
             dotdot)"
  by pat_completeness auto
termination
  by (relation "measure (\<lambda>(rooted, rest, out, dotdot). length rest)")
    (auto simp: not_slash_def intro!: le_imp_less_Suc length_dropWhile_le)

definition Clean :: "string \<Rightarrow> string" where
  "Clean path =
     (if path = [] then ''.''
      else let rooted = (hd path = CHR ''/'');
               out = (if rooted then clean_loop True (tl path) ''/'' 1
                      else clean_loop False path [] 0)
           in if out = [] then ''.'' else out)"

definition Join :: "string list \<Rightarrow> string" where
  "Join elem =
     (if sum_list (map length elem) = 0 then []
      else Clean (foldl (\<lambda>buf e. if buf \<noteq> [] \<or> e \<noteq> []
                                   then (if buf \<noteq> [] then buf @ ''/'' else buf) @ e
                                   else buf) [] elem))"

subsection \<open>\<open>net/url\<close>: the \<open>URL\<close> struct\<close>

record Userinfo =
  username :: string
  password :: string
  passwordSet :: bool

record URL =
  Scheme :: string
  Opaque :: string
  User :: "Userinfo option"
  Host :: string
  Path :: string
  RawPath :: string
  OmitHost :: bool
  ForceQuery :: bool
  RawQuery :: string
  Fragment :: string
  RawFragment :: string

definition Userinfo_String :: "Userinfo \<Rightarrow> string" where
  "Userinfo_String ui =
     (let s = escape (username ui) encodeUserPassword
      in if passwordSet ui then s @ '':'' @ escape (password ui) encodeUserPassword else s)"

definition EscapedPath :: "URL \<Rightarrow> string" where
  "EscapedPath u =
     (if RawPath u \<noteq> [] \<and> validEncoded (RawPath u) encodePath
         \<and> unescape (RawPath u) encodePath = Some (Path u) then RawPath u
      else if Path u = ''*'' then ''*''
      else escape (Path u) encodePath)"

definition EscapedFragment :: "URL \<Rightarrow> string" where
  "EscapedFragment u =
     (if RawFragment u \<noteq> [] \<and> validEncoded (RawFragment u) encodeFragment
         \<and> unescape (RawFragment u) encodeFragment = Some (Fragment u) then RawFragment u
      else escape (Fragment u) encodeFragment)"

text \<open>
  \<open>setPath\<close> returns its receiver as it leaves it, and whether it succeeded: when \<open>p\<close>
  does not unescape, the source returns the error before it assigns anything.
\<close>

definition setPath :: "URL \<Rightarrow> string \<Rightarrow> URL \<times> bool" where
  "setPath u p =
     (case unescape p encodePath of
        None \<Rightarrow> (u, False)
      | Some path \<Rightarrow>
          (u\<lparr>Path := path, RawPath := (if escape path encodePath = p then [] else p)\<rparr>, True))"

definition HasPrefix_slash :: "string \<Rightarrow> bool" where
  "HasPrefix_slash s = (s \<noteq> [] \<and> hd s = CHR ''/'')"

definition HasSuffix_slash :: "string \<Rightarrow> bool" where
  "HasSuffix_slash s = (s \<noteq> [] \<and> last s = CHR ''/'')"

text \<open>The path that \<open>JoinPath\<close> hands to \<open>setPath\<close>.\<close>

definition joined_path :: "URL \<Rightarrow> string list \<Rightarrow> string" where
  "joined_path u elem =
     (let elem0 = EscapedPath u;
          elem1 = (if \<not> HasPrefix_slash elem0 then (''/'' @ elem0) # elem else elem0 # elem);
          p = (if \<not> HasPrefix_slash elem0 then drop 1 (Join elem1) else Join elem1)
      in if HasSuffix_slash (last elem1) \<and> \<not> HasSuffix_slash p then p @ ''/'' else p)"

text \<open>
  \<open>URL.String\<close>, with the string builder as the value \<open>buf\<close>.
\<close>

definition URL_String :: "URL \<Rightarrow> string" where
  "URL_String u =
     (let buf = (if Scheme u \<noteq> [] then Scheme u @ '':'' else []);
          buf =
            (if Opaque u \<noteq> [] then buf @ Opaque u
             else
               let buf =
                     (if Scheme u \<noteq> [] \<or> Host u \<noteq> [] \<or> User u \<noteq> None then
                        (if OmitHost u \<and> Host u = [] \<and> User u = None then buf
                         else
                           let buf = (if Host u \<noteq> [] \<or> Path u \<noteq> [] \<or> User u \<noteq> None
                                      then buf @ ''//'' else buf);
                               buf = (case User u of
                                        Some ui \<Rightarrow> buf @ Userinfo_String ui @ ''@''
                                      | None \<Rightarrow> buf)
                           in if Host u \<noteq> [] then buf @ escape (Host u) encodeHost else buf)
                      else buf);
                   path = EscapedPath u;
                   buf = (if path \<noteq> [] \<and> hd path \<noteq> CHR ''/'' \<and> Host u \<noteq> []
                          then buf @ ''/'' else buf);
                   buf = (if buf = [] \<and> CHR '':'' \<in> set (takeWhile not_slash path)
                          then buf @ ''./'' else buf)
               in buf @ path);
          buf = (if ForceQuery u \<or> RawQuery u \<noteq> [] then buf @ ''?'' @ RawQuery u else buf)
      in if Fragment u \<noteq> [] then buf @ ''#'' @ EscapedFragment u else buf)"

subsection \<open>\<open>net/url\<close>: \<open>Values\<close>\<close>

text \<open>
  \<open>Values\<close> is \<open>map[string][]string\<close>: here an association list with one entry for each
  key. Only \<open>Encode\<close> iterates over it, and it sorts the keys first, bytewise as Go
  compares strings.
\<close>

type_synonym Values = "(string \<times> string list) list"

definition Values_index :: "Values \<Rightarrow> string \<Rightarrow> string list" where
  "Values_index v key = (case map_of v key of None \<Rightarrow> [] | Some vs \<Rightarrow> vs)"

primrec Values_assign :: "Values \<Rightarrow> string \<Rightarrow> string list \<Rightarrow> Values" where
  "Values_assign [] key vs = [(key, vs)]"
| "Values_assign (kv # v) key vs =
     (if fst kv = key then (key, vs) # v else kv # Values_assign v key vs)"

definition Values_Set :: "Values \<Rightarrow> string \<Rightarrow> string \<Rightarrow> Values" where
  "Values_Set v key val = Values_assign v key [val]"

definition Cut :: "string \<Rightarrow> char \<Rightarrow> string \<times> string" where
  "Cut s sep = (takeWhile (\<lambda>c. c \<noteq> sep) s, drop 1 (dropWhile (\<lambda>c. c \<noteq> sep) s))"

function parseQuery :: "Values \<Rightarrow> string \<Rightarrow> Values" where
  "parseQuery m query =
     (if query = [] then m
      else
        let key = fst (Cut query CHR ''&''); rest = snd (Cut query CHR ''&'')
        in if CHR '';'' \<in> set key then parseQuery m rest
           else if key = [] then parseQuery m rest
           else
             (case QueryUnescape (fst (Cut key CHR ''='')) of
                None \<Rightarrow> parseQuery m rest
              | Some k \<Rightarrow>
                  (case QueryUnescape (snd (Cut key CHR ''='')) of
                     None \<Rightarrow> parseQuery m rest
                   | Some val \<Rightarrow> parseQuery (Values_assign m k (Values_index m k @ [val])) rest)))"
  by pat_completeness auto
termination
proof -
  have shrink: "length (snd (Cut query CHR ''&'')) < length query" if "query \<noteq> []"
    for query :: string
  proof -
    have "length (dropWhile (\<lambda>c. c \<noteq> CHR ''&'') query) \<le> length query"
      by (rule length_dropWhile_le)
    moreover have "0 < length query"
      using that by simp
    ultimately show ?thesis
      unfolding Cut_def snd_conv length_drop by arith
  qed
  show ?thesis
    by (relation "measure (\<lambda>(m, query). length query)") (auto simp: shrink)
qed

definition Query :: "URL \<Rightarrow> Values" where
  "Query u = parseQuery [] (RawQuery u)"

definition Values_Encode :: "Values \<Rightarrow> string" where
  "Values_Encode v =
     (if v = [] then []
      else foldl (\<lambda>buf k.
                    foldl (\<lambda>buf x. (if buf \<noteq> [] then buf @ ''&'' else buf)
                                      @ QueryEscape k @ ''='' @ QueryEscape x)
                      buf (Values_index v k))
             [] (sort (map fst v)))"

section \<open>The program: \<open>lib/workflows.go\<close>\<close>

subsection \<open>Types and the transport, declared outside \<open>workflows.go\<close>\<close>

datatype json =
    JNull | JBool bool | JNumber int | JString string
  | JArray "json list" | JObject "(string \<times> json) list"

text \<open>
  Modelled from the spec: the struct \<open>JsonResponse\<close> is declared in a file that is not
  part of the sources at hand. The spec calls it a generic container for a decoded JSON
  response body; its zero value \<open>JsonResponse{}\<close> holds no body.
\<close>

record JsonResponse =
  Data :: "json option"

definition JsonResponse_zero :: JsonResponse where
  "JsonResponse_zero = \<lparr>Data = None\<rparr>"

text \<open>
  The anonymous struct of \<open>UpdateWorkflowStatus\<close>, \<open>struct { Active bool `json:"active"` }\<close>.
\<close>

record StatusData =
  Active :: bool

text \<open>
  Modelled from the spec: the payload structs \<open>WorkflowCreatePayload\<close>,
  \<open>WorkflowUpdatePayload\<close> and \<open>WorkflowStatusUpdatePayload\<close> are declared outside
  \<open>workflows.go\<close>; each has the single field \<open>Data\<close>. The request records
  \<open>CreateWorkflowRequest\<close> and \<open>UpdateWorkflowRequest\<close> are opaque: the type variables
  \<open>'a\<close> and \<open>'b\<close>. A value of type \<open>payload\<close> is what the methods pass as the
  \<open>interface{}\<close> body: one of the three structs or \<open>http.NoBody\<close>. The pointer
  \<open>*UpdateWorkflowRequest\<close> may be \<open>nil\<close>, here \<open>None\<close>; \<open>&workflow\<close> never is.
\<close>

datatype ('a, 'b) payload =
    NoBody
  | WorkflowCreatePayload 'a
  | WorkflowUpdatePayload "'b option"
  | WorkflowStatusUpdatePayload StatusData

text \<open>
  Modelled from the spec: the JSON document of a body, the envelope \<open>{"data": ...}\<close>
  around the record; \<open>marshal_a\<close> and \<open>marshal_b\<close> give the documents of the opaque
  records. The key \<open>active\<close> is the tag written in \<open>UpdateWorkflowStatus\<close>.
\<close>

fun payload_json :: "('a \<Rightarrow> json) \<Rightarrow> ('b \<Rightarrow> json) \<Rightarrow> ('a, 'b) payload \<Rightarrow> json option" where
  "payload_json marshal_a marshal_b NoBody = None"
| "payload_json marshal_a marshal_b (WorkflowCreatePayload w) =
     Some (JObject [(''data'', marshal_a w)])"
| "payload_json marshal_a marshal_b (WorkflowUpdatePayload w) =
     Some (JObject [(''data'', case w of None \<Rightarrow> JNull | Some x \<Rightarrow> marshal_b x)])"
| "payload_json marshal_a marshal_b (WorkflowStatusUpdatePayload d) =
     Some (JObject [(''data'', JObject [(''active'', JBool (Active d))])])"

definition MethodGet :: string where "MethodGet = ''GET''"
definition MethodPost :: string where "MethodPost = ''POST''"
definition MethodPut :: string where "MethodPut = ''PUT''"
definition MethodDelete :: string where "MethodDelete = ''DELETE''"

text \<open>The four arguments of one call of \<open>makeHTTPRequest\<close>; \<open>'c\<close> is \<open>context.Context\<close>.\<close>

record ('c, 'a, 'b) request =
  ctx :: 'c
  http_method :: string
  url :: string
  body :: "('a, 'b) payload"

text \<open>
  Modelled from the spec: the transport, \<open>APIClient.makeHTTPRequest\<close>, is not part of the
  sources at hand. The spec gives it as a function
  \<open>(context, method, url, body) -> (response, error)\<close> that does the network I/O: here
  any function of the request and of the state \<open>'w\<close> of the outside world, returning the
  response, the error (\<open>None\<close> for \<open>nil\<close>) and the new state of the world.
\<close>

type_synonym ('c, 'a, 'b, 'e, 'w) transport =
  "('c, 'a, 'b) request \<Rightarrow> 'w \<Rightarrow> (JsonResponse \<times> 'e option) \<times> 'w"

text \<open>
  \<open>Config.BackendURL\<close> is a \<open>*url.URL\<close>: an address in the store of \<open>URL\<close> objects. The
  service, its client and the configuration are never assigned to in \<open>workflows.go\<close>,
  so they are values; the \<open>URL\<close> objects are written through pointers, so they live in
  the store.
\<close>

record Config =
  BackendURL :: nat

record ('c, 'a, 'b, 'e, 'w) APIClient =
  config :: Config
  transport :: "('c, 'a, 'b, 'e, 'w) transport"

record ('c, 'a, 'b, 'e, 'w) WorkflowService =
  client :: "('c, 'a, 'b, 'e, 'w) APIClient"

text \<open>
  The program state: the store of \<open>URL\<close> objects with its next free address, the
  requests handed to the transport so far, oldest first, and the outside world.
\<close>

record ('c, 'a, 'b, 'w) state =
  urls :: "nat \<Rightarrow> URL"
  next_url :: nat
  sent :: "('c, 'a, 'b) request list"
  world :: 'w

definition makeHTTPRequest ::
  "('c, 'a, 'b, 'e, 'w) APIClient \<Rightarrow> 'c \<Rightarrow> string \<Rightarrow> string \<Rightarrow> ('a, 'b) payload
     \<Rightarrow> ('c, 'a, 'b, 'w) state \<Rightarrow> (JsonResponse \<times> 'e option) \<times> ('c, 'a, 'b, 'w) state" where
  "makeHTTPRequest c cx m u b s =
     (let req = \<lparr>ctx = cx, http_method = m, url = u, body = b\<rparr>;
          (r, w) = transport c req (world s)
      in (r, s\<lparr>sent := sent s @ [req], world := w\<rparr>))"

subsection \<open>\<open>URL.JoinPath\<close> on the store\<close>

text \<open>
  \<open>JoinPath\<close> copies its receiver into a new object (\<open>url := *u\<close>), sets the path of the
  copy, dropping the error of \<open>setPath\<close>, and returns the address of the copy.
\<close>

definition JoinPath ::
  "nat \<Rightarrow> string list \<Rightarrow> ('c, 'a, 'b, 'w) state \<Rightarrow> nat \<times> ('c, 'a, 'b, 'w) state" where
  "JoinPath u elem s =
     (let p = joined_path (urls s u) elem;
          new = next_url s;
          s = s\<lparr>urls := (urls s)(new := urls s u), next_url := Suc new\<rparr>;
          s = s\<lparr>urls := (urls s)(new := fst (setPath (urls s new) p))\<rparr>
      in (new, s))"

subsection \<open>The six methods of \<open>WorkflowService\<close>\<close>

definition CreateWorkflow ::
  "('c, 'a, 'b, 'e, 'w) WorkflowService \<Rightarrow> 'c \<Rightarrow> 'a \<Rightarrow> ('c, 'a, 'b, 'w) state
     \<Rightarrow> (JsonResponse \<times> 'e option) \<times> ('c, 'a, 'b, 'w) state" where
  "CreateWorkflow e cx workflow s =
     (let (URL, s) = JoinPath (BackendURL (config (client e))) [''workflows''] s;
          payload = WorkflowCreatePayload workflow;
          ((resp, err), s) =
             makeHTTPRequest (client e) cx MethodPost (URL_String (urls s URL)) payload s
      in if err \<noteq> None then ((JsonResponse_zero, err), s) else ((resp, None), s))"

definition UpdateWorkflow ::
  "('c, 'a, 'b, 'e, 'w) WorkflowService \<Rightarrow> 'c \<Rightarrow> string \<Rightarrow> 'b option \<Rightarrow> ('c, 'a, 'b, 'w) state
     \<Rightarrow> (JsonResponse \<times> 'e option) \<times> ('c, 'a, 'b, 'w) state" where
  "UpdateWorkflow e cx identifier workflow s =
     (let (URL, s) = JoinPath (BackendURL (config (client e))) [''workflows'', identifier] s;
          payload = WorkflowUpdatePayload workflow;
          ((resp, err), s) =
             makeHTTPRequest (client e) cx MethodPut (URL_String (urls s URL)) payload s
      in if err \<noteq> None then ((resp, err), s) else ((resp, None), s))"

definition UpdateWorkflowStatus ::
  "('c, 'a, 'b, 'e, 'w) WorkflowService \<Rightarrow> 'c \<Rightarrow> string \<Rightarrow> bool \<Rightarrow> ('c, 'a, 'b, 'w) state
     \<Rightarrow> (JsonResponse \<times> 'e option) \<times> ('c, 'a, 'b, 'w) state" where
  "UpdateWorkflowStatus e cx identifier status s =
     (let (URL, s) = JoinPath (BackendURL (config (client e))) [''workflows'', identifier] s;
          payload = WorkflowStatusUpdatePayload \<lparr>Active = status\<rparr>;
          ((resp, err), s) =
             makeHTTPRequest (client e) cx MethodPut (URL_String (urls s URL)) payload s
      in if err \<noteq> None then ((resp, err), s) else ((resp, None), s))"

definition GetWorkflows ::
  "('c, 'a, 'b, 'e, 'w) WorkflowService \<Rightarrow> 'c \<Rightarrow> int \<Rightarrow> int \<Rightarrow> ('c, 'a, 'b, 'w) state
     \<Rightarrow> (JsonResponse \<times> 'e option) \<times> ('c, 'a, 'b, 'w) state" where
  "GetWorkflows e cx page limit s =
     (let (URL, s) = JoinPath (BackendURL (config (client e))) [''workflows''] s;
          v = Query (urls s URL);
          v = Values_Set v ''page'' (Itoa page);
          v = Values_Set v ''limit'' (Itoa limit);
          s = s\<lparr>urls := (urls s)(URL := (urls s URL)\<lparr>RawQuery := Values_Encode v\<rparr>)\<rparr>;
          ((resp, err), s) =
             makeHTTPRequest (client e) cx MethodGet (URL_String (urls s URL)) NoBody s
      in if err \<noteq> None then ((resp, err), s) else ((resp, None), s))"

definition GetTenant ::
  "('c, 'a, 'b, 'e, 'w) WorkflowService \<Rightarrow> 'c \<Rightarrow> string \<Rightarrow> ('c, 'a, 'b, 'w) state
     \<Rightarrow> (JsonResponse \<times> 'e option) \<times> ('c, 'a, 'b, 'w) state" where
  "GetTenant e cx identifier s =
     (let (URL, s) = JoinPath (BackendURL (config (client e))) [''workflows'', identifier] s;
          ((resp, err), s) =
             makeHTTPRequest (client e) cx MethodGet (URL_String (urls s URL)) NoBody s
      in if err \<noteq> None then ((resp, err), s) else ((resp, None), s))"

definition DeleteWorkflow ::
  "('c, 'a, 'b, 'e, 'w) WorkflowService \<Rightarrow> 'c \<Rightarrow> string \<Rightarrow> ('c, 'a, 'b, 'w) state
     \<Rightarrow> (JsonResponse \<times> 'e option) \<times> ('c, 'a, 'b, 'w) state" where
  "DeleteWorkflow e cx identifier s =
     (let (URL, s) = JoinPath (BackendURL (config (client e))) [''workflows'', identifier] s;
          ((resp, err), s) =
             makeHTTPRequest (client e) cx MethodDelete (URL_String (urls s URL)) NoBody s
      in if err \<noteq> None then ((resp, err), s) else ((resp, None), s))"

section \<open>Calls, and the notions the claims are stated with\<close>

subsection \<open>One call of one of the six methods\<close>

text \<open>
  A value of type \<open>call\<close> names a method together with its arguments, under the names
  the spec gives the operations; \<open>run\<close> makes the call. A property of \<open>run e c s\<close> for
  every \<open>c\<close> is a property of all six methods for all arguments.
\<close>

datatype ('c, 'a, 'b) call =
    Create 'c 'a
  | Update 'c string "'b option"
  | UpdateStatus 'c string bool
  | List 'c int int
  | Get 'c string
  | Delete 'c string

fun run ::
  "('c, 'a, 'b, 'e, 'w) WorkflowService \<Rightarrow> ('c, 'a, 'b) call \<Rightarrow> ('c, 'a, 'b, 'w) state
     \<Rightarrow> (JsonResponse \<times> 'e option) \<times> ('c, 'a, 'b, 'w) state" where
  "run e (Create cx w) s = CreateWorkflow e cx w s"
| "run e (Update cx i w) s = UpdateWorkflow e cx i w s"
| "run e (UpdateStatus cx i b) s = UpdateWorkflowStatus e cx i b s"
| "run e (List cx p l) s = GetWorkflows e cx p l s"
| "run e (Get cx i) s = GetTenant e cx i s"
| "run e (Delete cx i) s = DeleteWorkflow e cx i s"

fun call_ctx :: "('c, 'a, 'b) call \<Rightarrow> 'c" where
  "call_ctx (Create cx w) = cx"
| "call_ctx (Update cx i w) = cx"
| "call_ctx (UpdateStatus cx i b) = cx"
| "call_ctx (List cx p l) = cx"
| "call_ctx (Get cx i) = cx"
| "call_ctx (Delete cx i) = cx"

text \<open>The base URL that the service is configured with, as the store holds it.\<close>

definition configured ::
  "('c, 'a, 'b, 'e, 'w) WorkflowService \<Rightarrow> ('c, 'a, 'b, 'w) state \<Rightarrow> URL" where
  "configured e s = urls s (BackendURL (config (client e)))"

subsection \<open>The object that a call builds, and the request it hands over\<close>

text \<open>
  The content of the object that \<open>JoinPath\<close> allocates, the content of the object of
  \<open>GetWorkflows\<close> once its query is set, and with them the URL object and the request of
  each call. Lemma \<open>run_eq\<close> proves that every call does build them.
\<close>

definition joined_url :: "URL \<Rightarrow> string list \<Rightarrow> URL" where
  "joined_url u elem = fst (setPath u (joined_path u elem))"

definition list_url :: "URL \<Rightarrow> int \<Rightarrow> int \<Rightarrow> URL" where
  "list_url u page limit =
     (let u1 = joined_url u [''workflows'']
      in u1\<lparr>RawQuery := Values_Encode
                 (Values_Set (Values_Set (Query u1) ''page'' (Itoa page)) ''limit'' (Itoa limit))\<rparr>)"

definition call_url :: "URL \<Rightarrow> ('c, 'a, 'b) call \<Rightarrow> URL" where
  "call_url u c =
     (case c of
        Create cx w \<Rightarrow> joined_url u [''workflows'']
      | Update cx i w \<Rightarrow> joined_url u [''workflows'', i]
      | UpdateStatus cx i b \<Rightarrow> joined_url u [''workflows'', i]
      | List cx p l \<Rightarrow> list_url u p l
      | Get cx i \<Rightarrow> joined_url u [''workflows'', i]
      | Delete cx i \<Rightarrow> joined_url u [''workflows'', i])"

definition call_request :: "URL \<Rightarrow> ('c, 'a, 'b) call \<Rightarrow> ('c, 'a, 'b) request" where
  "call_request u c =
     (case c of
        Create cx w \<Rightarrow>
          \<lparr>ctx = cx, http_method = MethodPost, url = URL_String (call_url u c),
           body = WorkflowCreatePayload w\<rparr>
      | Update cx i w \<Rightarrow>
          \<lparr>ctx = cx, http_method = MethodPut, url = URL_String (call_url u c),
           body = WorkflowUpdatePayload w\<rparr>
      | UpdateStatus cx i b \<Rightarrow>
          \<lparr>ctx = cx, http_method = MethodPut, url = URL_String (call_url u c),
           body = WorkflowStatusUpdatePayload \<lparr>Active = b\<rparr>\<rparr>
      | List cx p l \<Rightarrow>
          \<lparr>ctx = cx, http_method = MethodGet, url = URL_String (call_url u c), body = NoBody\<rparr>
      | Get cx i \<Rightarrow>
          \<lparr>ctx = cx, http_method = MethodGet, url = URL_String (call_url u c), body = NoBody\<rparr>
      | Delete cx i \<Rightarrow>
          \<lparr>ctx = cx, http_method = MethodDelete, url = URL_String (call_url u c), body = NoBody\<rparr>)"

subsection \<open>Paths\<close>

text \<open>
  The part of a joined path that comes from the base URL: its escaped path as
  \<open>path.Clean\<close> leaves it, up to and with the slash after which the new segments stand.
  For the base path \<open>/v1\<close> it is \<open>/v1/\<close>, for \<open>/\<close> it is \<open>/\<close>, for the empty path it is
  empty.
\<close>

definition base_prefix :: "URL \<Rightarrow> string" where
  "base_prefix u =
     (let bp = EscapedPath u;
          c = Clean (if HasPrefix_slash bp then bp else ''/'' @ bp);
          d = (if c = ''/'' then c else c @ ''/'')
      in if HasPrefix_slash bp then d else drop 1 d)"

text \<open>
  The path that the spec names for a single workflow, \<open>/workflows/{id}\<close> under the base
  path with the identifier path-escaped.
\<close>

definition spec_workflow_path :: "URL \<Rightarrow> string \<Rightarrow> string" where
  "spec_workflow_path u i = base_prefix u @ ''workflows/'' @ PathEscape i"

text \<open>
  An identifier that is one path segment as it stands: not empty, not a dot segment, and
  left unchanged by \<open>url.PathEscape\<close>, so without slash, percent sign or any other byte
  that a path segment has to escape.
\<close>

definition plain_identifier :: "string \<Rightarrow> bool" where
  "plain_identifier i = (i \<noteq> [] \<and> i \<noteq> ''.'' \<and> i \<noteq> ''..'' \<and> PathEscape i = i)"




text \<open>
  The text of a URL with a host and no opaque part, around its path: what \<open>URL.String\<close>
  writes before the path and after it, and the whole text with \<open>p\<close> as the escaped path.
\<close>

definition URL_before_path :: "URL \<Rightarrow> string" where
  "URL_before_path u =
     (if Scheme u \<noteq> [] then Scheme u @ '':'' else []) @ ''//''
       @ (case User u of Some ui \<Rightarrow> Userinfo_String ui @ ''@'' | None \<Rightarrow> [])
       @ escape (Host u) encodeHost"

definition URL_after_path :: "URL \<Rightarrow> string" where
  "URL_after_path u =
     (if ForceQuery u \<or> RawQuery u \<noteq> [] then ''?'' @ RawQuery u else [])
       @ (if Fragment u \<noteq> [] then ''#'' @ EscapedFragment u else [])"

definition url_with_path :: "URL \<Rightarrow> string \<Rightarrow> string" where
  "url_with_path u p =
     URL_before_path u @ (if p \<noteq> [] \<and> hd p \<noteq> CHR ''/'' then ''/'' else []) @ p
       @ URL_after_path u"

subsection \<open>Invariants of the proofs\<close>

text \<open>
  A path element that \<open>Clean\<close> copies as it is; a string that \<open>unescape\<close> accepts as a
  path; a string that is a valid encoded path; an output buffer of \<open>Clean\<close> on a rooted
  path; a cleaned path with the slash that \<open>Join\<close> puts after it; a byte of a decimal
  numeral.
\<close>

definition plain_segment :: "string \<Rightarrow> bool" where
  "plain_segment seg = (seg \<noteq> [] \<and> seg \<noteq> ''.'' \<and> seg \<noteq> ''..'' \<and> list_all not_slash seg)"

definition pct_ok :: "string \<Rightarrow> bool" where
  "pct_ok s = (unescape s encodePath \<noteq> None)"

definition enc_ok :: "string \<Rightarrow> bool" where
  "enc_ok s = (validEncoded s encodePath \<and> pct_ok s)"

definition rooted_ok :: "string \<Rightarrow> bool" where
  "rooted_ok out = (out \<noteq> [] \<and> hd out = CHR ''/'' \<and> enc_ok out)"

definition slashed :: "string \<Rightarrow> string" where
  "slashed c = (if c = ''/'' then c else c @ ''/'')"

definition query_plain :: "char \<Rightarrow> bool" where
  "query_plain c = (is_digit c \<or> c = CHR ''-'')"




subsection \<open>A configured service, for the examples\<close>

text \<open>
  The base URL \<open>https://api.novu.co/v1\<close>; a transport that fails every request after it
  has received part of a response, and one that answers every request; a service
  configured with the URL object at address 0; a state whose store holds \<open>u\<close> there.
  In the examples a context is a number, a workflow record is its JSON document and an
  error is its message.
\<close>

definition base0 :: URL where
  "base0 = \<lparr>Scheme = ''https'', Opaque = [], User = None, Host = ''api.novu.co'', Path = ''/v1'',
      RawPath = [], OmitHost = False, ForceQuery = False, RawQuery = [], Fragment = [],
      RawFragment = []\<rparr>"

definition failing :: "(nat, json, json, string, nat) transport" where
  "failing req w = ((\<lparr>Data = Some (JString ''partial'')\<rparr>, Some ''connection reset''), Suc w)"

definition answering :: "(nat, json, json, string, nat) transport" where
  "answering req w = ((\<lparr>Data = Some (JString (http_method req))\<rparr>, None), Suc w)"

definition service0 ::
  "(nat, json, json, string, nat) transport \<Rightarrow> (nat, json, json, string, nat) WorkflowService" where
  "service0 tr = \<lparr>client = \<lparr>config = \<lparr>BackendURL = 0\<rparr>, transport = tr\<rparr>\<rparr>"

definition state0 :: "URL \<Rightarrow> (nat, json, json, nat) state" where
  "state0 u = \<lparr>urls = (\<lambda>a. u), next_url = 1, sent = [], world = 0\<rparr>"

section \<open>Lemmas\<close>

declare clean_loop.simps [simp del]
declare digits.simps [simp del]
declare parseQuery.simps [simp del]

lemmas op_defs = CreateWorkflow_def UpdateWorkflow_def UpdateWorkflowStatus_def
  GetWorkflows_def GetTenant_def DeleteWorkflow_def

lemma run_eq:
  "run e c s =
     (let u = urls s (BackendURL (config (client e)));
          req = call_request u c;
          r = transport (client e) req (world s)
      in ((if snd (fst r) \<noteq> None \<and> (\<exists>cx w. c = Create cx w) then JsonResponse_zero else fst (fst r), snd (fst r)),
          \<lparr>urls = (urls s)(next_url s := call_url u c), next_url = Suc (next_url s),
            sent = sent s @ [req], world = snd r\<rparr>))"
  by (cases c; cases s)
     (auto simp: op_defs JoinPath_def makeHTTPRequest_def Let_def call_request_def call_url_def
                 joined_url_def list_url_def split: prod.splits)

lemma takeWhile_before_slash:
  "takeWhile not_slash (xs @ CHR ''/'' # ys) = takeWhile not_slash xs"
  by (induction xs) (simp_all add: not_slash_def)

lemma dropWhile_before_slash:
  "dropWhile not_slash (xs @ CHR ''/'' # ys) = dropWhile not_slash xs @ CHR ''/'' # ys"
  by (induction xs) (simp_all add: not_slash_def)

lemma takeWhile_all: "list_all not_slash xs \<Longrightarrow> takeWhile not_slash xs = xs"
  by (induction xs) simp_all

lemma dropWhile_all: "list_all not_slash xs \<Longrightarrow> dropWhile not_slash xs = []"
  by (induction xs) simp_all

lemma clean_loop_Nil [simp]: "clean_loop r [] out d = out"
  by (simp add: clean_loop.simps)

lemma clean_loop_slash [simp]: "clean_loop r (CHR ''/'' # cs) out d = clean_loop r cs out d"
  by (subst clean_loop.simps) simp

lemma clean_loop_dot:
  "cs = [] \<or> hd cs = CHR ''/'' \<Longrightarrow> clean_loop r (CHR ''.'' # cs) out d = clean_loop r cs out d"
  by (subst clean_loop.simps) simp

lemma clean_loop_dotdot:
  "cs = [] \<or> hd cs = CHR ''/'' \<Longrightarrow>
   clean_loop r (CHR ''.'' # CHR ''.'' # cs) out d =
     (if d < length out
        then clean_loop r cs (take (backtrack out d (length out - 1)) out) d
      else if \<not> r
        then clean_loop r cs ((if out \<noteq> [] then out @ ''/'' else out) @ ''..'')
               (length ((if out \<noteq> [] then out @ ''/'' else out) @ ''..''))
      else clean_loop r cs out d)"
  by (subst clean_loop.simps) simp

lemma clean_loop_elem:
  "c \<noteq> CHR ''/'' \<Longrightarrow> \<not> (c = CHR ''.'' \<and> (cs = [] \<or> hd cs = CHR ''/'')) \<Longrightarrow>
   \<not> (c = CHR ''.'' \<and> hd cs = CHR ''.'' \<and> (tl cs = [] \<or> hd (tl cs) = CHR ''/'')) \<Longrightarrow>
   clean_loop r (c # cs) out d =
     clean_loop r (dropWhile not_slash (c # cs))
       ((if r \<and> length out \<noteq> 1 \<or> \<not> r \<and> length out \<noteq> 0 then out @ ''/'' else out)
          @ takeWhile not_slash (c # cs)) d"
  by (subst clean_loop.simps) (simp only: if_False)

lemma clean_loop_plain:
  assumes "plain_segment seg"
  shows "clean_loop r seg out d =
           (if r \<and> length out \<noteq> 1 \<or> \<not> r \<and> length out \<noteq> 0 then out @ ''/'' else out) @ seg"
proof (cases seg)
  case Nil
  with assms show ?thesis by (simp add: plain_segment_def)
next
  case (Cons c cs)
  have all: "list_all not_slash (c # cs)" and c: "c \<noteq> CHR ''/''"
    using assms Cons by (simp_all add: plain_segment_def not_slash_def)
  have dot: "\<not> (c = CHR ''.'' \<and> (cs = [] \<or> hd cs = CHR ''/''))"
    using assms Cons by (cases cs) (auto simp: plain_segment_def not_slash_def)
  have dotdot: "\<not> (c = CHR ''.'' \<and> hd cs = CHR ''.'' \<and> (tl cs = [] \<or> hd (tl cs) = CHR ''/''))"
    using assms Cons by (cases cs; cases "tl cs") (auto simp: plain_segment_def not_slash_def)
  have "clean_loop r (c # cs) out d =
          clean_loop r (dropWhile not_slash (c # cs))
            ((if r \<and> length out \<noteq> 1 \<or> \<not> r \<and> length out \<noteq> 0 then out @ ''/'' else out)
               @ takeWhile not_slash (c # cs)) d"
    using c dot dotdot by (rule clean_loop_elem)
  then show ?thesis
    unfolding Cons takeWhile_all [OF all] dropWhile_all [OF all] by simp
qed

lemma hd_before_slash: "hd (cs @ CHR ''/'' # ys) = CHR ''/'' \<longleftrightarrow> cs = [] \<or> hd cs = CHR ''/''"
  by (cases cs) simp_all

lemma clean_loop_append:
  assumes "plain_segment seg"
  shows "clean_loop r (xs @ CHR ''/'' # seg) out d =
           (let out' = clean_loop r xs out d
            in (if r \<and> length out' \<noteq> 1 \<or> \<not> r \<and> length out' \<noteq> 0 then out' @ ''/'' else out') @ seg)"
proof (induction r xs out d rule: clean_loop.induct)
  case (1 rooted out dotdot)
  show ?case using clean_loop_plain [OF assms] by simp
next
  case (2 rooted c cs out dotdot)
  let ?ys = "cs @ CHR ''/'' # seg"
  consider (slash) "c = CHR ''/''"
    | (dot) "c \<noteq> CHR ''/''" "c = CHR ''.'' \<and> (cs = [] \<or> hd cs = CHR ''/'')"
    | (dotdot) "c \<noteq> CHR ''/''" "\<not> (c = CHR ''.'' \<and> (cs = [] \<or> hd cs = CHR ''/''))"
        "c = CHR ''.'' \<and> hd cs = CHR ''.'' \<and> (tl cs = [] \<or> hd (tl cs) = CHR ''/'')"
    | (elem) "c \<noteq> CHR ''/''" "\<not> (c = CHR ''.'' \<and> (cs = [] \<or> hd cs = CHR ''/''))"
        "\<not> (c = CHR ''.'' \<and> hd cs = CHR ''.'' \<and> (tl cs = [] \<or> hd (tl cs) = CHR ''/''))"
    by blast
  then show ?case
  proof cases
    case slash
    then show ?thesis using 2(1) by simp
  next
    case dot
    have "?ys = [] \<or> hd ?ys = CHR ''/''" using dot by (simp add: hd_before_slash)
    then have "clean_loop rooted (CHR ''.'' # ?ys) out dotdot = clean_loop rooted ?ys out dotdot"
      by (rule clean_loop_dot)
    moreover have "clean_loop rooted (CHR ''.'' # cs) out dotdot = clean_loop rooted cs out dotdot"
      using dot by (intro clean_loop_dot) simp
    ultimately show ?thesis using dot 2(2) by simp
  next
    case dotdot
    then obtain cs' where cs: "cs = CHR ''.'' # cs'" and cs': "cs' = [] \<or> hd cs' = CHR ''/''"
      by (cases cs) auto
    have c: "c = CHR ''.''" using dotdot by simp
    let ?zs = "cs' @ CHR ''/'' # seg"
    have zs: "?zs = [] \<or> hd ?zs = CHR ''/''" using cs' by (simp add: hd_before_slash)
    note l = clean_loop_dotdot [OF zs, of rooted out dotdot]
    note r = clean_loop_dotdot [OF cs', of rooted out dotdot]
    have tl: "tl cs = cs'" using cs by simp
    show ?thesis
    proof (cases "dotdot < length out")
      case True
      then show ?thesis using 2(3) [OF dotdot(1) dotdot(2) dotdot(3) True] l r
        unfolding c cs tl by simp
    next
      case False
      show ?thesis
      proof (cases rooted)
        case True
        then show ?thesis using 2(5) [OF dotdot(1) dotdot(2) dotdot(3) False] l r False
          unfolding c cs tl by simp
      next
        case nr: False
        then show ?thesis using 2(4) [OF dotdot(1) dotdot(2) dotdot(3) False] l r False
          unfolding c cs tl by simp
      qed
    qed
  next
    case elem
    have n2: "\<not> (c = CHR ''.'' \<and> (?ys = [] \<or> hd ?ys = CHR ''/''))"
      using elem by (simp add: hd_before_slash)
    have n3: "\<not> (c = CHR ''.'' \<and> hd ?ys = CHR ''.'' \<and> (tl ?ys = [] \<or> hd (tl ?ys) = CHR ''/''))"
      using elem by (cases cs) (auto simp: hd_before_slash)
    note lhs = clean_loop_elem [OF elem(1) n2 n3, of rooted out dotdot]
    note rhs = clean_loop_elem [OF elem, of rooted out dotdot]
    have app: "c # ?ys = (c # cs) @ CHR ''/'' # seg" by simp
    have tw: "takeWhile not_slash (c # ?ys) = takeWhile not_slash (c # cs)"
      unfolding app by (rule takeWhile_before_slash)
    have dw: "dropWhile not_slash (c # ?ys) = dropWhile not_slash (c # cs) @ CHR ''/'' # seg"
      unfolding app by (rule dropWhile_before_slash)
    have "clean_loop rooted ((c # cs) @ CHR ''/'' # seg) out dotdot = clean_loop rooted (c # ?ys) out dotdot"
      by simp
    also have "\<dots> = clean_loop rooted (dropWhile not_slash (c # cs) @ CHR ''/'' # seg)
            ((if rooted \<and> length out \<noteq> 1 \<or> \<not> rooted \<and> length out \<noteq> 0 then out @ ''/'' else out)
               @ takeWhile not_slash (c # cs)) dotdot"
      unfolding lhs tw dw ..
    finally show ?thesis
      using 2(6) [OF elem] rhs by (simp only:)
  qed
qed

lemma ishex_not_slash: "ishex c \<Longrightarrow> c \<noteq> CHR ''/''"
  by (auto simp: ishex_def in_range_def)

lemma unescape_path_Cons:
  "c \<noteq> CHR ''%'' \<Longrightarrow> unescape (c # s) encodePath = map_option ((#) c) (unescape s encodePath)"
  by simp

lemma pct_ok_Nil [simp]: "pct_ok []"
  by (simp add: pct_ok_def)

lemma pct_ok_Cons [simp]: "c \<noteq> CHR ''%'' \<Longrightarrow> pct_ok (c # s) = pct_ok s"
  by (simp add: pct_ok_def)

lemma pct_ok_pct: "pct_ok (CHR ''%'' # s) = (\<exists>a b r. s = a # b # r \<and> ishex a \<and> ishex b \<and> pct_ok r)"
  by (auto simp: pct_ok_def split: list.splits if_splits)

lemma pct_ok_append: "pct_ok xs \<Longrightarrow> pct_ok ys \<Longrightarrow> pct_ok (xs @ ys)"
proof (induction xs rule: length_induct)
  case (1 xs)
  show ?case
  proof (cases xs)
    case Nil
    then show ?thesis using 1 by simp
  next
    case (Cons c s)
    show ?thesis
    proof (cases "c = CHR ''%''")
      case True
      then obtain a b r where s: "s = a # b # r" and h: "ishex a" "ishex b" and r: "pct_ok r"
        using 1(2) unfolding Cons by (auto simp: pct_ok_pct)
      have "length r < length xs" by (simp add: Cons s)
      then have "pct_ok (r @ ys)"
        using 1(1) [rule_format, of r] r 1(3) by blast
      then show ?thesis
        unfolding Cons s True using h by (simp add: pct_ok_pct)
    next
      case False
      have "length s < length xs" by (simp add: Cons)
      then have "pct_ok (s @ ys)"
        using 1(1) [rule_format, of s] 1(2) 1(3) False unfolding Cons by simp
      then show ?thesis
        using False by (simp add: Cons)
    qed
  qed
qed

lemma pct_ok_split: "pct_ok (xs @ CHR ''/'' # ys) \<Longrightarrow> pct_ok xs \<and> pct_ok ys"
proof (induction xs rule: length_induct)
  case (1 xs)
  show ?case
  proof (cases xs)
    case Nil
    then show ?thesis using 1(2) by simp
  next
    case (Cons c s)
    show ?thesis
    proof (cases "c = CHR ''%''")
      case True
      then obtain a b r where s: "s @ CHR ''/'' # ys = a # b # r" and h: "ishex a" "ishex b"
        and r: "pct_ok r"
        using 1(2) unfolding Cons by (auto simp: pct_ok_pct)
      from s h obtain r' where s': "s = a # b # r'" and r': "r = r' @ CHR ''/'' # ys"
        using ishex_not_slash by (cases s; cases "tl s") auto
      have "length r' < length xs" by (simp add: Cons s')
      then have "pct_ok r' \<and> pct_ok ys"
        using 1(1) [rule_format, of r'] r unfolding r' by blast
      then show ?thesis
        unfolding Cons s' True using h by (simp add: pct_ok_pct)
    next
      case False
      have "length s < length xs" by (simp add: Cons)
      moreover have "pct_ok (s @ CHR ''/'' # ys)"
        using 1(2) False unfolding Cons by simp
      ultimately have "pct_ok s \<and> pct_ok ys"
        using 1(1) [rule_format, of s] by blast
      then show ?thesis
        using False by (simp add: Cons)
    qed
  qed
qed

lemma enc_ok_append: "enc_ok xs \<Longrightarrow> enc_ok ys \<Longrightarrow> enc_ok (xs @ ys)"
  by (simp add: enc_ok_def validEncoded_def pct_ok_append)

lemma enc_ok_split: "enc_ok (xs @ CHR ''/'' # ys) \<Longrightarrow> enc_ok xs \<and> enc_ok ys"
  using pct_ok_split [of xs ys] by (simp add: enc_ok_def validEncoded_def)

lemma enc_ok_slash [simp]: "enc_ok ''/''"
  by (simp add: enc_ok_def validEncoded_def valid_byte_def shouldEscape_def is_alnum_def in_range_def)

lemma enc_ok_Nil [simp]: "enc_ok []"
  by (simp add: enc_ok_def validEncoded_def)

lemma enc_ok_tl_slash: "enc_ok (CHR ''/'' # s) \<Longrightarrow> enc_ok s"
  using enc_ok_split [of "[]" s] by simp

lemma enc_ok_tl_dot: "enc_ok (CHR ''.'' # s) \<Longrightarrow> enc_ok s"
  by (simp add: enc_ok_def validEncoded_def)

lemma enc_ok_take_drop_while:
  assumes "enc_ok xs"
  shows "enc_ok (takeWhile not_slash xs) \<and> enc_ok (dropWhile not_slash xs)"
proof (cases "dropWhile not_slash xs")
  case Nil
  then have tw: "takeWhile not_slash xs = xs"
    by (metis append_Nil2 takeWhile_dropWhile_id)
  show ?thesis unfolding Nil tw using assms by simp
next
  case (Cons y ys)
  then have "\<not> not_slash y"
    using hd_dropWhile [of not_slash xs] by auto
  then have y: "y = CHR ''/''" by (simp add: not_slash_def)
  have "xs = takeWhile not_slash xs @ CHR ''/'' # ys"
    using takeWhile_dropWhile_id [of not_slash xs] unfolding Cons y by simp
  then have "enc_ok (takeWhile not_slash xs @ CHR ''/'' # ys)"
    using assms by simp
  then have "enc_ok (takeWhile not_slash xs) \<and> enc_ok ys"
    by (rule enc_ok_split)
  then show ?thesis
    unfolding Cons y using enc_ok_append [of "''/''" ys] by simp
qed

lemma backtrack_bounds:
  "d \<le> w \<Longrightarrow> d \<le> backtrack out d w \<and> backtrack out d w \<le> w
     \<and> (backtrack out d w = d \<or> out ! backtrack out d w = CHR ''/'')"
proof (induction out d w rule: backtrack.induct)
  case (1 out dotdot w)
  show ?case
  proof (cases "dotdot < w \<and> out ! w \<noteq> CHR ''/''")
    case True
    then have "dotdot \<le> w - 1" by arith
    then show ?thesis
      using 1(1) [OF True] True by (subst (1 2 3 4) backtrack.simps) auto
  next
    case False
    then show ?thesis using 1(2) by (subst (1 2 3 4) backtrack.simps) auto
  qed
qed

lemma enc_ok_take: 
  assumes "rooted_ok out" "1 \<le> w" "w < length out" "w = 1 \<or> out ! w = CHR ''/''"
  shows "rooted_ok (take w out)"
proof -
  have ne: "take w out \<noteq> []" and hd: "hd (take w out) = CHR ''/''"
    using assms by (auto simp: rooted_ok_def hd_take)
  have "enc_ok (take w out)"
  proof (cases "out ! w = CHR ''/''")
    case True
    have "out = take w out @ CHR ''/'' # drop (Suc w) out"
      using assms(3) True id_take_nth_drop by metis
    then have "enc_ok (take w out @ CHR ''/'' # drop (Suc w) out)"
      using assms(1) by (simp add: rooted_ok_def)
    then show ?thesis using enc_ok_split by blast
  next
    case False
    then have "w = 1" using assms(4) by simp
    then have "take w out = ''/''"
      using assms(1) by (cases out) (auto simp: rooted_ok_def)
    then show ?thesis by simp
  qed
  then show ?thesis using ne hd by (simp add: rooted_ok_def)
qed

lemma rooted_ok_append: "rooted_ok out \<Longrightarrow> enc_ok xs \<Longrightarrow> rooted_ok (out @ xs)"
  by (simp add: rooted_ok_def enc_ok_append)

lemma clean_loop_rooted_ok:
  "r \<Longrightarrow> d = 1 \<Longrightarrow> rooted_ok out \<Longrightarrow> enc_ok xs \<Longrightarrow> rooted_ok (clean_loop r xs out d)"
proof (induction r xs out d rule: clean_loop.induct)
  case (1 rooted out dotdot)
  then show ?case by simp
next
  case (2 rooted c cs out dotdot)
  note r = \<open>rooted\<close> and d = \<open>dotdot = 1\<close> and out = \<open>rooted_ok out\<close> and xs = \<open>enc_ok (c # cs)\<close>
  consider (slash) "c = CHR ''/''"
    | (dot) "c \<noteq> CHR ''/''" "c = CHR ''.'' \<and> (cs = [] \<or> hd cs = CHR ''/'')"
    | (dotdot) "c \<noteq> CHR ''/''" "\<not> (c = CHR ''.'' \<and> (cs = [] \<or> hd cs = CHR ''/''))"
        "c = CHR ''.'' \<and> hd cs = CHR ''.'' \<and> (tl cs = [] \<or> hd (tl cs) = CHR ''/'')"
    | (elem) "c \<noteq> CHR ''/''" "\<not> (c = CHR ''.'' \<and> (cs = [] \<or> hd cs = CHR ''/''))"
        "\<not> (c = CHR ''.'' \<and> hd cs = CHR ''.'' \<and> (tl cs = [] \<or> hd (tl cs) = CHR ''/''))"
    by blast
  then show ?case
  proof cases
    case slash
    have "enc_ok cs" using xs slash enc_ok_tl_slash by simp
    then show ?thesis using 2(1) [OF slash r d out] slash by simp
  next
    case dot
    have "enc_ok cs" using xs dot enc_ok_tl_dot by simp
    moreover have "clean_loop rooted (c # cs) out dotdot = clean_loop rooted cs out dotdot"
      using dot clean_loop_dot by simp
    ultimately show ?thesis using 2(2) [OF dot r d out] by simp
  next
    case dotdot
    then obtain cs' where cs: "cs = CHR ''.'' # cs'" and cs': "cs' = [] \<or> hd cs' = CHR ''/''"
      by (cases cs) auto
    have c: "c = CHR ''.''" using dotdot by simp
    have tl: "tl cs = cs'" using cs by simp
    have ok': "enc_ok cs'" using xs enc_ok_tl_dot unfolding c cs by blast
    note eq = clean_loop_dotdot [OF cs', of rooted out dotdot]
    show ?thesis
    proof (cases "dotdot < length out")
      case True
      let ?w = "backtrack out dotdot (length out - 1)"
      have "dotdot \<le> length out - 1" using True by arith
      from backtrack_bounds [OF this, of out]
      have b: "1 \<le> ?w" "?w < length out" "?w = 1 \<or> out ! ?w = CHR ''/''"
        using d True by auto
      have "rooted_ok (take ?w out)"
        using out b by (rule enc_ok_take)
      then have "rooted_ok (clean_loop rooted (tl cs) (take ?w out) dotdot)"
        using 2(3) [OF dotdot True r d] ok' tl by simp
      then show ?thesis using eq True unfolding c cs tl by simp
    next
      case False
      have "rooted_ok (clean_loop rooted (tl cs) out dotdot)"
        using 2(5) [OF dotdot False _ r d out] r ok' tl by simp
      then show ?thesis using eq False r unfolding c cs tl by simp
    qed
  next
    case elem
    note eq = clean_loop_elem [OF elem, of rooted out dotdot]
    have td: "enc_ok (takeWhile not_slash (c # cs))" "enc_ok (dropWhile not_slash (c # cs))"
      using enc_ok_take_drop_while [OF xs] by simp_all
    have "rooted_ok ((if rooted \<and> length out \<noteq> 1 \<or> \<not> rooted \<and> length out \<noteq> 0 then out @ ''/'' else out)
               @ takeWhile not_slash (c # cs))"
    proof (cases "rooted \<and> length out \<noteq> 1 \<or> \<not> rooted \<and> length out \<noteq> 0")
      case True
      have "rooted_ok (out @ ''/'')"
        using out by (rule rooted_ok_append) simp
      then have "rooted_ok ((out @ ''/'') @ takeWhile not_slash (c # cs))"
        using td(1) by (rule rooted_ok_append)
      then show ?thesis using True by (simp only: if_True)
    next
      case False
      have "rooted_ok (out @ takeWhile not_slash (c # cs))"
        using out td(1) by (rule rooted_ok_append)
      then show ?thesis using False by (simp only: if_False)
    qed
    then show ?thesis
      using 2(6) [OF elem r d _ td(2)] eq by simp
  qed
qed

lemma upperhex_digit:
  assumes "k < 16"
  shows "ishex (upperhex ! k) \<and> valid_byte encodePath (upperhex ! k) \<and> upperhex ! k \<noteq> CHR ''%''"
proof -
  have "list_all (\<lambda>h. ishex h \<and> valid_byte encodePath h \<and> h \<noteq> CHR ''%'') upperhex"
    by (simp add: upperhex_def ishex_def in_range_def valid_byte_def shouldEscape_def is_alnum_def)
  moreover have "k < length upperhex" using assms by (simp add: upperhex_def)
  ultimately show ?thesis by (simp add: list_all_length)
qed

lemma hex_index: "(of_char c :: nat) div 16 < 16" "(of_char c :: nat) mod 16 < 16"
  using nat_of_char_less_256 [of c] by (simp_all add: less_mult_imp_div_less)

lemma shouldEscape_pct: "shouldEscape CHR ''%'' mode"
  by (cases mode) (simp_all add: shouldEscape_def is_alnum_def in_range_def)

lemma enc_ok_escape_byte: "enc_ok (escape_byte encodePath c)"
proof (cases "shouldEscape c encodePath")
  case True
  then show ?thesis
    using upperhex_digit [OF hex_index(1), of c] upperhex_digit [OF hex_index(2), of c]
    by (simp add: escape_byte_def enc_ok_def validEncoded_def pct_ok_pct valid_byte_def)
next
  case False
  then have "c \<noteq> CHR ''%''" using shouldEscape_pct by auto
  then show ?thesis
    using False by (simp add: escape_byte_def enc_ok_def validEncoded_def valid_byte_def)
qed

lemma enc_ok_escape: "enc_ok (escape s encodePath)"
  by (induction s) (simp_all add: escape_def enc_ok_append enc_ok_escape_byte)

lemma enc_ok_star: "enc_ok ''*''"
  by (simp add: enc_ok_def validEncoded_def valid_byte_def)

lemma enc_ok_EscapedPath: "enc_ok (EscapedPath u)"
  by (simp add: EscapedPath_def enc_ok_escape enc_ok_star) (simp add: enc_ok_def pct_ok_def)

lemma EscapedPath_setPath:
  assumes "enc_ok p" "p \<noteq> []" "unescape p encodePath \<noteq> Some ''*''"
  shows "EscapedPath (fst (setPath u p)) = p"
proof -
  obtain path where path: "unescape p encodePath = Some path"
    using assms(1) by (auto simp: enc_ok_def pct_ok_def)
  have valid: "validEncoded p encodePath" using assms(1) by (simp add: enc_ok_def)
  have star: "path \<noteq> ''*''" using assms(3) path by simp
  show ?thesis
    using path valid star assms(2) by (simp add: setPath_def EscapedPath_def)
qed

lemma length_escape: "length s \<le> length (escape s mode)"
  by (induction s) (auto simp: escape_def escape_byte_def)

lemma escape_fixed:
  "escape s mode = s \<Longrightarrow> list_all (\<lambda>c. \<not> shouldEscape c mode) s"
proof (induction s)
  case Nil
  show ?case by simp
next
  case (Cons c s)
  have e: "escape (c # s) mode = escape_byte mode c @ escape s mode"
    by (simp add: escape_def)
  show ?case
  proof (cases "shouldEscape c mode")
    case True
    show ?thesis
    proof (cases "c = CHR '' '' \<and> mode = encodeQueryComponent")
      case sp: True
      then have "hd (escape (c # s) mode) = CHR ''+''" by (simp add: escape_def escape_byte_def)
      then show ?thesis using Cons.prems sp by simp
    next
      case False
      then have "length (escape (c # s) mode) = 3 + length (escape s mode)"
        using True by (auto simp: e escape_byte_def)
      then have "length (c # s) < length (escape (c # s) mode)"
        using length_escape [of s mode] by simp
      then show ?thesis using Cons.prems by simp
    qed
  next
    case False
    then have "escape_byte mode c = [c]"
      by (auto simp: escape_byte_def shouldEscape_def is_alnum_def in_range_def)
    then have "escape s mode = s" using Cons.prems e by simp
    then show ?thesis using Cons.IH False by simp
  qed
qed

lemma segment_byte:
  assumes "\<not> shouldEscape c encodePathSegment"
  shows "c \<noteq> CHR ''/''" "c \<noteq> CHR ''%''" "valid_byte encodePath c"
proof -
  show "c \<noteq> CHR ''/''" using assms by (auto simp: shouldEscape_def is_alnum_def in_range_def)
  show "c \<noteq> CHR ''%''" using assms shouldEscape_pct by auto
  have "\<not> shouldEscape c encodePath"
    using assms by (auto simp: shouldEscape_def split: if_splits)
  then show "valid_byte encodePath c" by (simp add: valid_byte_def)
qed

lemma segment_bytes:
  "list_all (\<lambda>c. \<not> shouldEscape c encodePathSegment) s \<Longrightarrow> list_all not_slash s \<and> enc_ok s"
  by (induction s) (auto simp: not_slash_def enc_ok_def validEncoded_def segment_byte)

lemma plain_identifier_facts:
  assumes "plain_identifier i"
  shows "plain_segment i" "enc_ok i" "\<not> HasSuffix_slash i"
proof -
  have "list_all (\<lambda>c. \<not> shouldEscape c encodePathSegment) i"
    using assms escape_fixed by (simp add: plain_identifier_def PathEscape_def)
  then have ns: "list_all not_slash i" and "enc_ok i"
    using segment_bytes by blast+
  then show "enc_ok i" by simp
  show "plain_segment i" using assms ns by (simp add: plain_segment_def plain_identifier_def)
  have "i \<noteq> []" using assms by (simp add: plain_identifier_def)
  then have "last i \<in> set i" by simp
  then have "not_slash (last i)" using ns by (simp add: list_all_iff)
  then show "\<not> HasSuffix_slash i" by (simp add: HasSuffix_slash_def not_slash_def)
qed

lemma plain_workflows: "plain_segment ''workflows''" "enc_ok ''workflows''" "\<not> HasSuffix_slash ''workflows''"
  by (simp_all add: plain_segment_def not_slash_def enc_ok_def validEncoded_def valid_byte_def
        shouldEscape_def is_alnum_def in_range_def HasSuffix_slash_def)

lemma rooted_ok_start [simp]: "rooted_ok ''/''"
  by (simp add: rooted_ok_def)

lemma Clean_rooted:
  assumes "enc_ok t"
  shows "Clean (CHR ''/'' # t) = clean_loop True t ''/'' 1" "rooted_ok (Clean (CHR ''/'' # t))"
proof -
  have ok: "rooted_ok (clean_loop True t ''/'' 1)"
    using assms by (intro clean_loop_rooted_ok) simp_all
  then show "Clean (CHR ''/'' # t) = clean_loop True t ''/'' 1"
    by (simp add: Clean_def rooted_ok_def)
  then show "rooted_ok (Clean (CHR ''/'' # t))" using ok by simp
qed

lemma rooted_slashed:
  assumes "rooted_ok out"
  shows "(if length out \<noteq> 1 then out @ ''/'' else out) = slashed out"
    "rooted_ok (slashed out)" "slashed out \<noteq> []" "hd (slashed out) = CHR ''/''"
    "last (slashed out) = CHR ''/''"
proof -
  have "length out = 1 \<longleftrightarrow> out = ''/''"
    using assms by (cases out) (auto simp: rooted_ok_def)
  then show "(if length out \<noteq> 1 then out @ ''/'' else out) = slashed out"
    by (simp add: slashed_def)
  show r: "rooted_ok (slashed out)"
    using assms rooted_ok_append [OF assms, of "''/''"] by (simp add: slashed_def)
  show "slashed out \<noteq> []" "hd (slashed out) = CHR ''/''"
    using r by (simp_all add: rooted_ok_def)
  show "last (slashed out) = CHR ''/''" by (simp add: slashed_def)
qed

lemma slashed_append: "x \<noteq> [] \<Longrightarrow> a \<noteq> [] \<Longrightarrow> slashed (x @ a) = x @ a @ ''/''"
  by (cases x; cases a) (simp_all add: slashed_def)

lemma Clean_rooted_append:
  assumes "enc_ok t" "plain_segment a"
  shows "Clean (CHR ''/'' # t @ CHR ''/'' # a) = slashed (Clean (CHR ''/'' # t)) @ a"
proof -
  let ?o = "clean_loop True t ''/'' 1"
  have c: "Clean (CHR ''/'' # t) = ?o" and ok: "rooted_ok (Clean (CHR ''/'' # t))"
    using assms(1) by (rule Clean_rooted)+
  have "clean_loop True (t @ CHR ''/'' # a) ''/'' 1 = (if length ?o \<noteq> 1 then ?o @ ''/'' else ?o) @ a"
    using clean_loop_append [OF assms(2), of True t "''/''" 1] by (simp add: Let_def)
  also have "(if length ?o \<noteq> 1 then ?o @ ''/'' else ?o) = slashed ?o"
    using ok unfolding c by (rule rooted_slashed(1))
  finally have "clean_loop True (t @ CHR ''/'' # a) ''/'' 1 = slashed (Clean (CHR ''/'' # t)) @ a"
    unfolding c .
  moreover have "a \<noteq> []" using assms(2) by (simp add: plain_segment_def)
  ultimately show ?thesis by (simp add: Clean_def)
qed

lemma enc_ok_append_slash:
  "enc_ok t \<Longrightarrow> enc_ok a \<Longrightarrow> enc_ok (t @ CHR ''/'' # a)"
  using enc_ok_append [of t "CHR ''/'' # a"] enc_ok_append [of "''/''" a] by simp

lemma Join_rooted1:
  assumes "enc_ok t" "plain_segment a"
  shows "Join [CHR ''/'' # t, a] = slashed (Clean (CHR ''/'' # t)) @ a"
  using Clean_rooted_append [OF assms] by (simp add: Join_def)

lemma Join_rooted2:
  assumes "enc_ok t" "plain_segment a" "enc_ok a" "plain_segment b"
  shows "Join [CHR ''/'' # t, a, b] = slashed (Clean (CHR ''/'' # t)) @ a @ ''/'' @ b"
proof -
  have ta: "enc_ok (t @ CHR ''/'' # a)"
    using assms(1,3) by (rule enc_ok_append_slash)
  have a: "a \<noteq> []" using assms(2) by (simp add: plain_segment_def)
  have x: "slashed (Clean (CHR ''/'' # t)) \<noteq> []"
    using Clean_rooted(2) [OF assms(1)] by (rule rooted_slashed(3))
  have "Clean (CHR ''/'' # (t @ CHR ''/'' # a) @ CHR ''/'' # b)
          = slashed (Clean (CHR ''/'' # t @ CHR ''/'' # a)) @ b"
    using ta assms(4) by (rule Clean_rooted_append)
  also have "Clean (CHR ''/'' # t @ CHR ''/'' # a) = slashed (Clean (CHR ''/'' # t)) @ a"
    using assms(1,2) by (rule Clean_rooted_append)
  also have "slashed (slashed (Clean (CHR ''/'' # t)) @ a) = slashed (Clean (CHR ''/'' # t)) @ a @ ''/''"
    using x a by (rule slashed_append)
  finally show ?thesis by (simp add: Join_def)
qed

lemma base_cases:
  obtains (rooted) t where "EscapedPath u = CHR ''/'' # t" "enc_ok t"
  | (relative) "\<not> HasPrefix_slash (EscapedPath u)" "enc_ok (EscapedPath u)"
proof (cases "HasPrefix_slash (EscapedPath u)")
  case True
  then obtain t where t: "EscapedPath u = CHR ''/'' # t"
    by (cases "EscapedPath u") (auto simp: HasPrefix_slash_def)
  then have "enc_ok t" using enc_ok_EscapedPath [of u] enc_ok_tl_slash by simp
  then show ?thesis using rooted t by simp
next
  case False
  then show ?thesis using relative enc_ok_EscapedPath [of u] by simp
qed

lemma base_prefix_rooted:
  "EscapedPath u = CHR ''/'' # t \<Longrightarrow> base_prefix u = slashed (Clean (CHR ''/'' # t))"
  by (simp add: base_prefix_def slashed_def HasPrefix_slash_def Let_def)

lemma base_prefix_relative:
  "\<not> HasPrefix_slash (EscapedPath u) \<Longrightarrow>
     base_prefix u = drop 1 (slashed (Clean (CHR ''/'' # EscapedPath u)))"
  by (simp add: base_prefix_def slashed_def Let_def)

lemma drop1_append: "x \<noteq> [] \<Longrightarrow> drop 1 (x @ y) = drop 1 x @ y"
  by (cases x) simp_all

lemma joined_path_workflows: "joined_path u [''workflows''] = base_prefix u @ ''workflows''"
proof (cases u rule: base_cases)
  case (rooted t)
  have "HasPrefix_slash (EscapedPath u)" using rooted(1) by (simp add: HasPrefix_slash_def)
  then show ?thesis
    using Join_rooted1 [OF rooted(2) plain_workflows(1)] plain_workflows(3) rooted(1)
    by (simp add: joined_path_def base_prefix_rooted [OF rooted(1)])
next
  case relative
  have ne: "slashed (Clean (CHR ''/'' # EscapedPath u)) \<noteq> []"
    using Clean_rooted(2) [OF relative(2)] by (rule rooted_slashed(3))
  show ?thesis
    using Join_rooted1 [OF relative(2) plain_workflows(1)] plain_workflows(3) relative(1)
      drop1_append [OF ne]
    by (simp add: joined_path_def base_prefix_relative [OF relative(1)])
qed

lemma joined_path_workflows_id:
  assumes "plain_identifier i"
  shows "joined_path u [''workflows'', i] = base_prefix u @ ''workflows/'' @ i"
proof (cases u rule: base_cases)
  case (rooted t)
  note i = plain_identifier_facts [OF assms]
  have "HasPrefix_slash (EscapedPath u)" using rooted(1) by (simp add: HasPrefix_slash_def)
  then show ?thesis
    using Join_rooted2 [OF rooted(2) plain_workflows(1) plain_workflows(2) i(1)] i(3) rooted(1)
    by (simp add: joined_path_def base_prefix_rooted [OF rooted(1)])
next
  case relative
  note i = plain_identifier_facts [OF assms]
  have ne: "slashed (Clean (CHR ''/'' # EscapedPath u)) \<noteq> []"
    using Clean_rooted(2) [OF relative(2)] by (rule rooted_slashed(3))
  show ?thesis
    using Join_rooted2 [OF relative(2) plain_workflows(1) plain_workflows(2) i(1)] i(3) relative(1)
      drop1_append [OF ne]
    by (simp add: joined_path_def base_prefix_relative [OF relative(1)])
qed

lemma enc_ok_slashed_Clean:
  assumes "enc_ok t"
  shows "enc_ok (slashed (Clean (CHR ''/'' # t)))" "enc_ok (drop 1 (slashed (Clean (CHR ''/'' # t))))"
    "drop 1 (slashed (Clean (CHR ''/'' # t))) = [] \<or> last (drop 1 (slashed (Clean (CHR ''/'' # t)))) = CHR ''/''"
proof -
  let ?d = "slashed (Clean (CHR ''/'' # t))"
  note r = rooted_slashed [OF Clean_rooted(2) [OF assms]]
  show ok: "enc_ok ?d" using r(2) by (simp add: rooted_ok_def)
  obtain d where d: "?d = CHR ''/'' # d" using r(3) r(4) by (cases ?d) auto
  show "enc_ok (drop 1 ?d)" using ok enc_ok_tl_slash unfolding d by simp
  show "drop 1 ?d = [] \<or> last (drop 1 ?d) = CHR ''/''"
    using r(5) unfolding d by (cases d) simp_all
qed

lemma enc_ok_base_prefix: "enc_ok (base_prefix u)"
proof (cases u rule: base_cases)
  case (rooted t)
  then show ?thesis using enc_ok_slashed_Clean(1) by (simp add: base_prefix_rooted)
next
  case relative
  then show ?thesis using enc_ok_slashed_Clean(2) by (simp add: base_prefix_relative)
qed

lemma base_prefix_shape: "base_prefix u = [] \<or> last (base_prefix u) = CHR ''/''"
proof (cases u rule: base_cases)
  case (rooted t)
  then show ?thesis
    using rooted_slashed(5) [OF Clean_rooted(2)] by (simp add: base_prefix_rooted)
next
  case relative
  then show ?thesis using enc_ok_slashed_Clean(3) by (simp add: base_prefix_relative)
qed

lemma ishex_not_w: "ishex c \<Longrightarrow> c \<noteq> CHR ''w''"
  by (auto simp: ishex_def in_range_def)

lemma unescape_keeps_w:
  "unescape s encodePath = Some q \<Longrightarrow> CHR ''w'' \<in> set s \<Longrightarrow> CHR ''w'' \<in> set q"
proof (induction s arbitrary: q rule: length_induct)
  case (1 s)
  show ?case
  proof (cases s)
    case Nil
    then show ?thesis using 1(3) by simp
  next
    case (Cons c t)
    show ?thesis
    proof (cases "c = CHR ''%''")
      case True
      have "pct_ok (CHR ''%'' # t)" using 1(2) Cons True by (simp add: pct_ok_def)
      then obtain a b r where t: "t = a # b # r" and h: "ishex a" "ishex b"
        by (auto simp: pct_ok_pct)
      then obtain q' where q': "unescape r encodePath = Some q'" and q: "set q' \<subseteq> set q"
        using 1(2) unfolding Cons True t by fastforce
      have "CHR ''w'' \<in> set r"
        using 1(3) h ishex_not_w unfolding Cons True t by auto
      moreover have "length r < length s" by (simp add: Cons t)
      ultimately have "CHR ''w'' \<in> set q'"
        using 1(1) [rule_format, of r q'] q' by blast
      then show ?thesis using q by blast
    next
      case False
      then obtain q' where q': "unescape t encodePath = Some q'" and q: "q = c # q'"
        using 1(2) unfolding Cons by (auto simp: unescape_path_Cons simp del: unescape.simps)
      show ?thesis
      proof (cases "c = CHR ''w''")
        case True
        then show ?thesis using q by simp
      next
        case nw: False
        then have "CHR ''w'' \<in> set t" using 1(3) Cons by auto
        moreover have "length t < length s" by (simp add: Cons)
        ultimately have "CHR ''w'' \<in> set q'"
          using 1(1) [rule_format, of t q'] q' by blast
        then show ?thesis using q by simp
      qed
    qed
  qed
qed

lemma setPath_frame:
  "fst (setPath u p) = u\<lparr>Path := Path (fst (setPath u p)), RawPath := RawPath (fst (setPath u p))\<rparr>"
  by (cases "unescape p encodePath") (simp_all add: setPath_def)

lemma joined_url_frame:
  "joined_url u elem = u\<lparr>Path := Path (joined_url u elem), RawPath := RawPath (joined_url u elem)\<rparr>"
  unfolding joined_url_def by (rule setPath_frame)

lemma EscapedPath_setPath_w:
  assumes "enc_ok p" "CHR ''w'' \<in> set p"
  shows "EscapedPath (fst (setPath u p)) = p"
proof (rule EscapedPath_setPath [OF assms(1)])
  show "p \<noteq> []" using assms(2) by auto
  show "unescape p encodePath \<noteq> Some ''*''"
    using unescape_keeps_w [OF _ assms(2), of "''*''"] by auto
qed

lemma joined_url_workflows_path:
  "EscapedPath (joined_url u [''workflows'']) = base_prefix u @ ''workflows''"
  unfolding joined_url_def joined_path_workflows
  by (rule EscapedPath_setPath_w) (simp_all add: enc_ok_append enc_ok_base_prefix plain_workflows)

lemma joined_url_id_path:
  assumes "plain_identifier i"
  shows "EscapedPath (joined_url u [''workflows'', i]) = base_prefix u @ ''workflows/'' @ i"
proof -
  have "enc_ok (''workflows'' @ CHR ''/'' # i)"
    using plain_workflows(2) plain_identifier_facts(2) [OF assms] by (rule enc_ok_append_slash)
  then have "enc_ok (base_prefix u @ ''workflows/'' @ i)"
    using enc_ok_append [OF enc_ok_base_prefix, of "''workflows'' @ CHR ''/'' # i" u] by simp
  then show ?thesis
    unfolding joined_url_def joined_path_workflows_id [OF assms]
    by (rule EscapedPath_setPath_w) simp
qed

lemma digit_char_props:
  assumes "d < 10"
  shows "is_digit (digit_char d)" "digit_val (digit_char d) = d"
proof -
  have "d = 0 \<or> d = 1 \<or> d = 2 \<or> d = 3 \<or> d = 4 \<or> d = 5 \<or> d = 6 \<or> d = 7 \<or> d = 8 \<or> d = 9"
    using assms by arith
  then show "is_digit (digit_char d)" "digit_val (digit_char d) = d"
    by (auto simp: digit_char_def is_digit_def in_range_def digit_val_def)
qed

lemma digits_all: "list_all is_digit (digits n)"
proof (induction n rule: digits.induct)
  case (1 n)
  show ?case
  proof (cases "n < 10")
    case True
    then show ?thesis by (subst digits.simps) (simp add: digit_char_props)
  next
    case False
    then show ?thesis using 1 by (subst digits.simps) (simp add: digit_char_props)
  qed
qed




lemma Itoa_plain: "list_all query_plain (Itoa i)"
proof -
  have "list_all query_plain (digits n)" for n
    using digits_all [of n] by (simp add: list_all_iff query_plain_def)
  then show ?thesis by (simp add: Itoa_def query_plain_def)
qed

lemma is_digit_facts:
  assumes "is_digit c"
  shows "is_alnum c" "c \<notin> set '' &=;%+''"
  using assms by (auto simp: is_digit_def in_range_def is_alnum_def)

lemma query_plain_byte:
  assumes "query_plain c"
  shows "escape_byte encodeQueryComponent c = [c]" "c \<noteq> CHR ''&''" "c \<noteq> CHR ''=''" "c \<noteq> CHR '';''"
    "c \<noteq> CHR ''%''" "c \<noteq> CHR ''+''"
proof -
  consider (digit) "is_digit c" | (minus) "c = CHR ''-''"
    using assms by (auto simp: query_plain_def)
  then have "escape_byte encodeQueryComponent c = [c] \<and> c \<notin> set '' &=;%+''"
  proof cases
    case digit
    then show ?thesis
      using is_digit_facts [OF digit] by (simp add: escape_byte_def shouldEscape_def)
  next
    case minus
    then show ?thesis
      by (simp add: escape_byte_def shouldEscape_def is_alnum_def in_range_def)
  qed
  then show "escape_byte encodeQueryComponent c = [c]" "c \<noteq> CHR ''&''" "c \<noteq> CHR ''=''" "c \<noteq> CHR '';''"
    "c \<noteq> CHR ''%''" "c \<noteq> CHR ''+''"
    by auto
qed

lemma QueryEscape_plain: "list_all query_plain s \<Longrightarrow> QueryEscape s = s"
  by (induction s) (simp_all add: QueryEscape_def escape_def query_plain_byte)


lemma QueryEscape_Itoa [simp]: "QueryEscape (Itoa i) = Itoa i"
  by (rule QueryEscape_plain) (rule Itoa_plain)

lemma QueryEscape_keys [simp]: "QueryEscape ''page'' = ''page''" "QueryEscape ''limit'' = ''limit''"
  by (simp_all add: QueryEscape_def escape_def escape_byte_def shouldEscape_def is_alnum_def in_range_def)

lemma setPath_fields [simp]:
  "Scheme (fst (setPath u p)) = Scheme u" "Opaque (fst (setPath u p)) = Opaque u"
  "User (fst (setPath u p)) = User u" "Host (fst (setPath u p)) = Host u"
  "OmitHost (fst (setPath u p)) = OmitHost u" "ForceQuery (fst (setPath u p)) = ForceQuery u"
  "RawQuery (fst (setPath u p)) = RawQuery u" "Fragment (fst (setPath u p)) = Fragment u"
  "RawFragment (fst (setPath u p)) = RawFragment u"
  by (simp_all add: setPath_def split: option.splits)

lemma parseQuery_empty [simp]: "parseQuery m [] = m"
  by (subst parseQuery.simps) simp

lemma Encode_page_limit:
  "Values_Encode (Values_Set (Values_Set [] ''page'' (Itoa page)) ''limit'' (Itoa limit))
     = ''limit='' @ Itoa limit @ ''&page='' @ Itoa page"
  by (simp add: Values_Encode_def Values_Set_def Values_index_def)

lemma list_url_query:
  assumes "RawQuery u = []"
  shows "RawQuery (list_url u page limit) = ''limit='' @ Itoa limit @ ''&page='' @ Itoa page"
  using assms Encode_page_limit
  by (simp add: list_url_def Let_def Query_def joined_url_def)

lemma EscapedPath_RawQuery [simp]: "EscapedPath (u\<lparr>RawQuery := q\<rparr>) = EscapedPath u"
  by (simp add: EscapedPath_def)

lemma list_url_path: "EscapedPath (list_url u page limit) = base_prefix u @ ''workflows''"
  by (simp add: list_url_def Let_def joined_url_workflows_path)





lemma QueryUnescape_keys [simp]:
  "QueryUnescape ''page'' = Some ''page''" "QueryUnescape ''limit'' = Some ''limit''"
  by (simp_all add: QueryUnescape_def)




lemma URL_String_suffix:
  assumes "Opaque u = []" "Host u \<noteq> []" "Fragment u = []"
    and "EscapedPath u = b @ seg" "b = [] \<or> last b = CHR ''/''" "seg \<noteq> []" "hd seg \<noteq> CHR ''/''"
  shows "\<exists>pre. URL_String u = pre @ ''/'' @ seg
            @ (if ForceQuery u \<or> RawQuery u \<noteq> [] then ''?'' @ RawQuery u else [])"
proof (cases "b = []")
  case True
  then have p: "EscapedPath u = seg" using assms(4) by simp
  show ?thesis
    using assms(1,2,3,6,7) unfolding URL_String_def p Let_def
    by (simp split: option.splits)
next
  case False
  then obtain b' where b: "b = b' @ ''/''"
    using assms(5) by (metis append_butlast_last_id)
  have p: "EscapedPath u = b' @ ''/'' @ seg" using assms(4) b by simp
  show ?thesis
    using assms(1,2,3,6,7) unfolding URL_String_def p Let_def
    by (auto split: option.splits intro: exI [where x = "_ @ b'"])
qed

lemma URL_String_hosted:
  assumes "Opaque u = []" "Host u \<noteq> []"
  shows "URL_String u = url_with_path u (EscapedPath u)"
  using assms
  by (simp add: URL_String_def url_with_path_def URL_before_path_def URL_after_path_def Let_def
        split: option.splits)

lemma url_with_path_frame:
  "u' = u\<lparr>Path := P, RawPath := R\<rparr> \<Longrightarrow> url_with_path u' p = url_with_path u p"
  by (simp add: url_with_path_def URL_before_path_def URL_after_path_def EscapedFragment_def)


lemma sent0:
  "sent (snd (run (service0 tr) c (state0 u))) = [call_request u c]"
  by (simp add: run_eq Let_def service0_def state0_def)





lemma requests_list:
  "\<exists>req. sent (snd (GetWorkflows e cx page limit s)) = sent s @ [req]
      \<and> http_method req = ''GET'' \<and> body req = NoBody
      \<and> url req = URL_String (list_url (configured e s) page limit)"
  using run_eq [of e "List cx page limit" s]
  by (simp add: Let_def call_request_def call_url_def configured_def MethodGet_def)



lemma eval_Itoa: "Itoa 25 = ''25''" "Itoa 2 = ''2''" "Itoa (- 1) = ''-1''" "Itoa 0 = ''0''"
  by code_simp+

lemma requests_create:
  "\<exists>req. sent (snd (CreateWorkflow e cx w s)) = sent s @ [req]
      \<and> http_method req = ''POST'' \<and> body req = WorkflowCreatePayload w
      \<and> url req = URL_String (joined_url (configured e s) [''workflows''])"
  using run_eq [of e "Create cx w" s]
  by (simp add: Let_def call_request_def call_url_def configured_def MethodPost_def)

lemma requests_delete:
  "\<exists>req. sent (snd (DeleteWorkflow e cx i s)) = sent s @ [req]
      \<and> http_method req = ''DELETE'' \<and> body req = NoBody
      \<and> url req = URL_String (joined_url (configured e s) [''workflows'', i])"
  using run_eq [of e "Delete cx i" s]
  by (simp add: Let_def call_request_def call_url_def configured_def MethodDelete_def)

lemma joined_url_hosted:
  assumes "Opaque u = []" "Host u \<noteq> []"
  shows "URL_String (joined_url u elem) = url_with_path u (EscapedPath (joined_url u elem))"
proof -
  have "Opaque (joined_url u elem) = []" "Host (joined_url u elem) \<noteq> []"
    using assms by (simp_all add: joined_url_def)
  then have "URL_String (joined_url u elem)
               = url_with_path (joined_url u elem) (EscapedPath (joined_url u elem))"
    by (rule URL_String_hosted)
  then show ?thesis
    using url_with_path_frame [OF joined_url_frame [of u elem]] by simp
qed

lemma eval_create_url: "url_with_path base0 (base_prefix base0 @ ''workflows'') = ''https://api.novu.co/v1/workflows''"
  by code_simp

lemma list_url_fields:
  "Opaque (list_url u page limit) = Opaque u" "Host (list_url u page limit) = Host u"
  "Fragment (list_url u page limit) = Fragment u"
  by (simp_all add: list_url_def Let_def joined_url_def)

lemma eval_list_url: "URL_String (list_url base0 2 25) = ''https://api.novu.co/v1/workflows?limit=25&page=2''"
  by code_simp

lemma eval_not_suffix: "\<not> suffix ''/workflows?page=2&limit=25'' ''https://api.novu.co/v1/workflows?limit=25&page=2''"
  by code_simp



lemma eval_plain_wf_123: "plain_identifier ''wf_123''"
  by code_simp







































text \<open>
  Identifiers outside the amended claim C1, at the base URL \<open>https://api.novu.co/v1\<close>:
  \<open>a;b\<close> and \<open>a!b\<close> are requested as they stand, \<open>100%\<close> requests the base URL, the empty
  identifier requests the collection.
\<close>

lemma eval_excluded_identifiers:
  "URL_String (joined_url base0 [''workflows'', ''a;b'']) = ''https://api.novu.co/v1/workflows/a;b''"
  "PathEscape ''a;b'' = ''a%3Bb''"
  "URL_String (joined_url base0 [''workflows'', ''a!b'']) = ''https://api.novu.co/v1/workflows/a!b''"
  "PathEscape ''a!b'' = ''a%21b''"
  "URL_String (joined_url base0 [''workflows'', ''100%'']) = ''https://api.novu.co/v1''"
  "PathEscape ''100%'' = ''100%25''"
  "URL_String (joined_url base0 [''workflows'', []]) = ''https://api.novu.co/v1/workflows''"
  by code_simp+

text \<open>
  A base URL whose path is not in the default encoding, \<open>https://api.novu.co/a%2Fb\<close>:
  for the identifier \<open>x y\<close> the whole path is escaped anew and the base segment \<open>a%2Fb\<close>
  becomes the two segments \<open>a\<close> and \<open>b\<close>; for the identifier \<open>xy\<close> the base path stays.
\<close>

lemma eval_raw_base:
  "URL_String (joined_url (base0\<lparr>Path := ''/a/b'', RawPath := ''/a%2Fb''\<rparr>) [''workflows'', ''x y''])
     = ''https://api.novu.co/a/b/workflows/x%20y''"
  "spec_workflow_path (base0\<lparr>Path := ''/a/b'', RawPath := ''/a%2Fb''\<rparr>) ''x y''
     = ''/a%2Fb/workflows/x%20y''"
  "URL_String (joined_url (base0\<lparr>Path := ''/a/b'', RawPath := ''/a%2Fb''\<rparr>) [''workflows'', ''xy''])
     = ''https://api.novu.co/a%2Fb/workflows/xy''"
  by code_simp+

section \<open>The claims\<close>

text \<open>
  Claim C2. For every operation of \<open>WorkflowService\<close> and every input: the operation
  hands the transport exactly one request, and when the transport answers that request
  with a non-nil error \<open>x\<close>, the operation returns exactly \<open>x\<close>: the same error value,
  neither wrapped nor replaced, and no second request is made.
\<close>

theorem transport_error_returned_unchanged:
  "\<exists>req. sent (snd (run e c s)) = sent s @ [req]
     \<and> (\<forall>x. snd (fst (transport (client e) req (world s))) = Some x
            \<longrightarrow> snd (fst (run e c s)) = Some x)"
  by (simp add: run_eq Let_def)

theorem transport_error_returned_unchanged_witness:
  "snd (fst (run (service0 failing) (Delete 0 ''wf_123'') (state0 base0))) = Some ''connection reset''
   \<and> length (sent (snd (run (service0 failing) (Delete 0 ''wf_123'') (state0 base0)))) = 1"
  using transport_error_returned_unchanged
          [of "service0 failing" "Delete 0 ''wf_123''" "state0 base0"]
  by (auto simp: service0_def failing_def state0_def)

text \<open>
  Claim C7. No operation validates its arguments: for every call, whatever the
  identifier (the empty string included) and whatever the two integers of \<open>GetWorkflows\<close>
  (zero and negative values included), exactly one request reaches the transport, and the
  operation returns a non-nil error if and only if the transport does.
\<close>

theorem no_local_validation:
  "\<exists>req. sent (snd (run e c s)) = sent s @ [req]
     \<and> (snd (fst (run e c s)) \<noteq> None)
          = (snd (fst (transport (client e) req (world s))) \<noteq> None)"
  by (simp add: run_eq Let_def)

theorem no_local_validation_witness:
  "length (sent (snd (run (service0 answering) (Get 0 []) (state0 base0)))) = 1
   \<and> snd (fst (run (service0 answering) (Get 0 []) (state0 base0))) = None
   \<and> length (sent (snd (run (service0 failing) (List 0 (- 1) 0) (state0 base0)))) = 1
   \<and> snd (fst (run (service0 failing) (List 0 (- 1) 0) (state0 base0))) \<noteq> None"
  using no_local_validation [of "service0 answering" "Get 0 []" "state0 base0"]
    no_local_validation [of "service0 failing" "List 0 (- 1) 0" "state0 base0"]
  by (auto simp: service0_def failing_def answering_def state0_def)

text \<open>
  Claim C8. Every operation hands the transport, in the one request it makes, the very
  context value it was called with.
\<close>

theorem context_forwarded:
  "\<exists>req. sent (snd (run e c s)) = sent s @ [req] \<and> ctx req = call_ctx c"
  by (cases c) (simp_all add: run_eq Let_def call_request_def)

theorem context_forwarded_witness:
  "ctx (hd (sent (snd (run (service0 answering) (Update 7 ''wf_123'' None) (state0 base0))))) = 7"
  using context_forwarded [of "service0 answering" "Update 7 ''wf_123'' None" "state0 base0"]
  by (auto simp: state0_def)

text \<open>
  Claim C9. Every operation leaves the configuration as it found it: when the configured
  base URL is an allocated object of the store, it holds after the call, whatever the
  arguments and whatever the transport answered, the value it held before, as does every
  other object allocated before the call; the one object the call writes is the copy that
  \<open>JoinPath\<close> allocates. The service and its client are values that no operation returns or
  assigns to.
\<close>

theorem base_url_unchanged:
  "BackendURL (config (client e)) < next_url s \<Longrightarrow>
     configured e (snd (run e c s)) = configured e s
     \<and> (\<forall>a<next_url s. urls (snd (run e c s)) a = urls s a)
     \<and> next_url (snd (run e c s)) = Suc (next_url s)"
  by (simp add: run_eq Let_def configured_def)

theorem base_url_unchanged_witness:
  "BackendURL (config (client (service0 failing))) < next_url (state0 base0)
   \<and> configured (service0 failing) (snd (run (service0 failing) (List 0 2 25) (state0 base0))) = base0
   \<and> next_url (snd (run (service0 failing) (List 0 2 25) (state0 base0))) = 2"
proof -
  have h: "BackendURL (config (client (service0 failing))) < next_url (state0 base0)"
    by (simp add: service0_def state0_def)
  show ?thesis
    using h base_url_unchanged [OF h, of "List 0 2 25"]
    by (simp add: configured_def service0_def state0_def)
qed



text \<open>
  Claim C5. For every identifier and every boolean \<open>b\<close>, \<open>UpdateWorkflowStatus\<close> hands
  the transport one request with method \<open>PUT\<close> whose body is the status payload with
  \<open>Active = b\<close>, the JSON document \<open>{"data": {"active": b}}\<close>.
\<close>

theorem status_request:
  "\<exists>req. sent (snd (UpdateWorkflowStatus e cx i b s)) = sent s @ [req]
      \<and> http_method req = ''PUT'' \<and> body req = WorkflowStatusUpdatePayload \<lparr>Active = b\<rparr>
      \<and> payload_json marshal_a marshal_b (body req)
           = Some (JObject [(''data'', JObject [(''active'', JBool b)])])"
  using run_eq [of e "UpdateStatus cx i b" s]
  by (simp add: Let_def call_request_def MethodPut_def)

theorem status_request_witness:
  "(\<exists>req. sent (snd (UpdateWorkflowStatus (service0 answering) 0 ''wf_123'' True (state0 base0))) = [req]
      \<and> http_method req = ''PUT''
      \<and> payload_json (\<lambda>x. x) (\<lambda>x. x) (body req)
           = Some (JObject [(''data'', JObject [(''active'', JBool True)])]))
   \<and> (\<exists>req. sent (snd (UpdateWorkflowStatus (service0 answering) 0 ''wf_123'' False (state0 base0))) = [req]
      \<and> http_method req = ''PUT''
      \<and> payload_json (\<lambda>x. x) (\<lambda>x. x) (body req)
           = Some (JObject [(''data'', JObject [(''active'', JBool False)])]))"
  using status_request [of "service0 answering" 0 "''wf_123''" True "state0 base0" "\<lambda>x. x" "\<lambda>x. x"]
    status_request [of "service0 answering" 0 "''wf_123''" False "state0 base0" "\<lambda>x. x" "\<lambda>x. x"]
  by (auto simp: state0_def)

text \<open>
  Claim C4. For every workflow record \<open>w\<close> and every base URL, \<open>CreateWorkflow\<close> hands the
  transport one request with method \<open>POST\<close>, whose body is the create payload holding
  \<open>w\<close>, the JSON document \<open>{"data": w}\<close>, and whose URL is the base URL with its path
  replaced: the escaped path is the cleaned base path followed by the single segment
  \<open>workflows\<close>. For a base URL with a host and no opaque part, the text handed over is
  the text of the base URL with that path.
\<close>

theorem create_request:
  "\<exists>req u'. sent (snd (CreateWorkflow e cx w s)) = sent s @ [req]
      \<and> http_method req = ''POST'' \<and> body req = WorkflowCreatePayload w
      \<and> payload_json marshal_a marshal_b (body req) = Some (JObject [(''data'', marshal_a w)])
      \<and> url req = URL_String u'
      \<and> EscapedPath u' = base_prefix (configured e s) @ ''workflows''
      \<and> (base_prefix (configured e s) = [] \<or> last (base_prefix (configured e s)) = CHR ''/'')
      \<and> u' = (configured e s)\<lparr>Path := Path u', RawPath := RawPath u'\<rparr>
      \<and> (Opaque (configured e s) = [] \<and> Host (configured e s) \<noteq> [] \<longrightarrow>
            url req = url_with_path (configured e s) (base_prefix (configured e s) @ ''workflows''))"
proof -
  let ?u = "joined_url (configured e s) [''workflows'']"
  obtain req where req: "sent (snd (CreateWorkflow e cx w s)) = sent s @ [req]"
    "http_method req = ''POST''" "body req = WorkflowCreatePayload w" "url req = URL_String ?u"
    using requests_create [of e cx w s] by blast
  show ?thesis
    using req joined_url_workflows_path [of "configured e s"] base_prefix_shape [of "configured e s"]
      joined_url_frame [of "configured e s" "[''workflows'']"]
      joined_url_hosted [of "configured e s" "[''workflows'']"]
    by (intro exI [where x = req] exI [where x = ?u]) simp
qed

theorem create_request_witness:
  "\<exists>req. sent (snd (CreateWorkflow (service0 answering) 0
                      (JObject [(''name'', JString ''invoice-flow'')]) (state0 base0))) = [req]
      \<and> http_method req = ''POST''
      \<and> payload_json (\<lambda>x. x) (\<lambda>x. x) (body req)
           = Some (JObject [(''data'', JObject [(''name'', JString ''invoice-flow'')])])
      \<and> url req = ''https://api.novu.co/v1/workflows''"
proof -
  have c: "configured (service0 answering) (state0 base0) = base0"
    by (simp add: configured_def service0_def state0_def)
  have h: "Opaque base0 = [] \<and> Host base0 \<noteq> []" by (simp add: base0_def)
  show ?thesis
    using create_request [of "service0 answering" 0 "JObject [(''name'', JString ''invoice-flow'')]"
                            "state0 base0" "\<lambda>x. x" "\<lambda>x. x"] h
    unfolding c eval_create_url by (auto simp: state0_def)
qed







text \<open>
  Claim C6, as amended. For every base URL with a host and with no opaque part, query
  string or fragment, the worked examples read: \<open>CreateWorkflow\<close> of the record
  \<open>{"name": "invoice-flow"}\<close> issues \<open>POST\<close> to a URL ending in \<open>/workflows\<close> with the body
  \<open>{"data":{"name":"invoice-flow"}}\<close>; \<open>GetWorkflows(ctx, 2, 25)\<close> issues \<open>GET\<close> to a URL
  ending in \<open>/workflows?limit=25&page=2\<close>, the parameters in the sorted order of their
  keys; \<open>DeleteWorkflow(ctx, "wf_123")\<close> issues \<open>DELETE\<close> to a URL ending in
  \<open>/workflows/wf_123\<close>.
\<close>

theorem worked_examples:
  assumes "Opaque (configured e s) = []" "Host (configured e s) \<noteq> []"
    "RawQuery (configured e s) = []" "\<not> ForceQuery (configured e s)"
    "Fragment (configured e s) = []"
  shows "(\<exists>req pre. sent (snd (CreateWorkflow e cx (JObject [(''name'', JString ''invoice-flow'')]) s))
                      = sent s @ [req]
            \<and> http_method req = ''POST'' \<and> url req = pre @ ''/workflows''
            \<and> payload_json (\<lambda>x. x) marshal_b (body req)
                 = Some (JObject [(''data'', JObject [(''name'', JString ''invoice-flow'')])]))
       \<and> (\<exists>req pre. sent (snd (GetWorkflows e cx 2 25 s)) = sent s @ [req]
            \<and> http_method req = ''GET'' \<and> body req = NoBody
            \<and> url req = pre @ ''/workflows?limit=25&page=2'')
       \<and> (\<exists>req pre. sent (snd (DeleteWorkflow e cx ''wf_123'' s)) = sent s @ [req]
            \<and> http_method req = ''DELETE'' \<and> body req = NoBody
            \<and> url req = pre @ ''/workflows/wf_123'')"
proof (intro conjI)
  let ?u = "configured e s"
  note shape = base_prefix_shape [of ?u]
  let ?c = "joined_url ?u [''workflows'']"
  have "\<exists>pre. URL_String ?c = pre @ ''/'' @ ''workflows''
            @ (if ForceQuery ?c \<or> RawQuery ?c \<noteq> [] then ''?'' @ RawQuery ?c else [])"
    using assms shape joined_url_workflows_path [of ?u]
    by (intro URL_String_suffix [where b = "base_prefix ?u"]) (simp_all add: joined_url_def)
  then obtain pre1 where pre1: "URL_String ?c = pre1 @ ''/workflows''"
    using assms by (auto simp: joined_url_def)
  obtain req1 where
    "sent (snd (CreateWorkflow e cx (JObject [(''name'', JString ''invoice-flow'')]) s))
       = sent s @ [req1]"
    "http_method req1 = ''POST''"
    "body req1 = WorkflowCreatePayload (JObject [(''name'', JString ''invoice-flow'')])"
    "url req1 = URL_String ?c"
    using requests_create [of e cx "JObject [(''name'', JString ''invoice-flow'')]" s] by blast
  then show "\<exists>req pre. sent (snd (CreateWorkflow e cx (JObject [(''name'', JString ''invoice-flow'')]) s))
                      = sent s @ [req]
            \<and> http_method req = ''POST'' \<and> url req = pre @ ''/workflows''
            \<and> payload_json (\<lambda>x. x) marshal_b (body req)
                 = Some (JObject [(''data'', JObject [(''name'', JString ''invoice-flow'')])])"
    using pre1 by (intro exI [where x = req1] exI [where x = pre1]) simp
  let ?l = "list_url ?u 2 25"
  have q: "RawQuery ?l = ''limit=25&page=2''"
    using list_url_query [OF assms(3), of 2 25] by (simp add: eval_Itoa)
  have "\<exists>pre. URL_String ?l = pre @ ''/'' @ ''workflows''
            @ (if ForceQuery ?l \<or> RawQuery ?l \<noteq> [] then ''?'' @ RawQuery ?l else [])"
    using assms shape list_url_path [of ?u 2 25]
    by (intro URL_String_suffix [where b = "base_prefix ?u"]) (simp_all add: list_url_fields)
  then obtain pre2 where pre2: "URL_String ?l = pre2 @ ''/workflows?limit=25&page=2''"
    unfolding q by auto
  obtain req2 where "sent (snd (GetWorkflows e cx 2 25 s)) = sent s @ [req2]"
    "http_method req2 = ''GET''" "body req2 = NoBody" "url req2 = URL_String ?l"
    using requests_list [of e cx 2 25 s] by blast
  then show "\<exists>req pre. sent (snd (GetWorkflows e cx 2 25 s)) = sent s @ [req]
            \<and> http_method req = ''GET'' \<and> body req = NoBody
            \<and> url req = pre @ ''/workflows?limit=25&page=2''"
    using pre2 by (intro exI [where x = req2] exI [where x = pre2]) simp
  let ?d = "joined_url ?u [''workflows'', ''wf_123'']"
  have "\<exists>pre. URL_String ?d = pre @ ''/'' @ ''workflows/wf_123''
            @ (if ForceQuery ?d \<or> RawQuery ?d \<noteq> [] then ''?'' @ RawQuery ?d else [])"
    using assms shape joined_url_id_path [OF eval_plain_wf_123, of ?u]
    by (intro URL_String_suffix [where b = "base_prefix ?u"]) (simp_all add: joined_url_def)
  then obtain pre3 where pre3: "URL_String ?d = pre3 @ ''/workflows/wf_123''"
    using assms by (auto simp: joined_url_def)
  obtain req3 where "sent (snd (DeleteWorkflow e cx ''wf_123'' s)) = sent s @ [req3]"
    "http_method req3 = ''DELETE''" "body req3 = NoBody" "url req3 = URL_String ?d"
    using requests_delete [of e cx "''wf_123''" s] by blast
  then show "\<exists>req pre. sent (snd (DeleteWorkflow e cx ''wf_123'' s)) = sent s @ [req]
            \<and> http_method req = ''DELETE'' \<and> body req = NoBody
            \<and> url req = pre @ ''/workflows/wf_123''"
    using pre3 by (intro exI [where x = req3] exI [where x = pre3]) simp
qed

theorem worked_examples_witness:
  "Opaque (configured (service0 answering) (state0 base0)) = []
   \<and> Host (configured (service0 answering) (state0 base0)) \<noteq> []
   \<and> RawQuery (configured (service0 answering) (state0 base0)) = []
   \<and> \<not> ForceQuery (configured (service0 answering) (state0 base0))
   \<and> Fragment (configured (service0 answering) (state0 base0)) = []
   \<and> (\<exists>req pre. sent (snd (GetWorkflows (service0 answering) 0 2 25 (state0 base0))) = [req]
            \<and> http_method req = ''GET'' \<and> url req = pre @ ''/workflows?limit=25&page=2'')
   \<and> (\<exists>req pre. sent (snd (DeleteWorkflow (service0 answering) 0 ''wf_123'' (state0 base0))) = [req]
            \<and> http_method req = ''DELETE'' \<and> url req = pre @ ''/workflows/wf_123'')"
proof -
  have c: "configured (service0 answering) (state0 base0) = base0"
    by (simp add: configured_def service0_def state0_def)
  have h: "Opaque base0 = []" "Host base0 \<noteq> []" "RawQuery base0 = []" "\<not> ForceQuery base0"
    "Fragment base0 = []"
    by (simp_all add: base0_def)
  have s: "sent (state0 base0) = []" by (simp add: state0_def)
  show ?thesis
    using h worked_examples [of "service0 answering" "state0 base0" 0 "\<lambda>x. x", unfolded c, OF h]
    unfolding c s by auto
qed

text \<open>
  The second example is a counterexample to the claim as first stated: with the base URL
  \<open>https://api.novu.co/v1\<close> the URL of \<open>GetWorkflows(ctx, 2, 25)\<close> ends in
  \<open>?limit=25&page=2\<close>, not in \<open>?page=2&limit=25\<close>.
\<close>

theorem worked_examples_counterexample:
  "url (hd (sent (snd (GetWorkflows (service0 answering) 0 2 25 (state0 base0)))))
      = ''https://api.novu.co/v1/workflows?limit=25&page=2''
   \<and> \<not> suffix ''/workflows?page=2&limit=25''
          (url (hd (sent (snd (GetWorkflows (service0 answering) 0 2 25 (state0 base0))))))"
proof -
  have "url (hd (sent (snd (GetWorkflows (service0 answering) 0 2 25 (state0 base0)))))
      = ''https://api.novu.co/v1/workflows?limit=25&page=2''"
    using sent0 [of answering "List 0 2 25" base0]
    by (simp add: call_request_def call_url_def eval_list_url)
  then show ?thesis using eval_not_suffix by simp
qed

end
